theory Spec2Isabelle
  imports Main "HOL-Library.Word"
begin

section \<open>JavaScript strings\<close>

text \<open>
  A JavaScript string is a sequence of 16-bit code units. String literals of the source
  are written \<open>str ''...''\<close>; a single code unit is \<open>ch CHR ''x''\<close>.
\<close>

type_synonym unit16 = "16 word"

type_synonym jsstring = "unit16 list"

definition ch :: "char \<Rightarrow> unit16" where
  "ch c = of_char c"

definition str :: "string \<Rightarrow> jsstring" where
  "str s = map ch s"

text \<open>
  The code units matched by \<open>\s\<close> in a regular expression and removed by
  \<open>String.prototype.trim\<close>: WhiteSpace and LineTerminator of ECMA-262
  (TAB, LF, VT, FF, CR, SPACE, NBSP, U+1680, U+2000..U+200A, U+2028, U+2029, U+202F,
  U+205F, U+3000, U+FEFF).
\<close>

definition is_ws :: "unit16 \<Rightarrow> bool" where
  "is_ws c =
     (c = 0x09 \<or> c = 0x0A \<or> c = 0x0B \<or> c = 0x0C \<or> c = 0x0D \<or> c = 0x20 \<or> c = 0xA0
      \<or> c = 0x1680 \<or> (0x2000 \<le> c \<and> c \<le> 0x200A) \<or> c = 0x2028 \<or> c = 0x2029
      \<or> c = 0x202F \<or> c = 0x205F \<or> c = 0x3000 \<or> c = 0xFEFF)"

definition trim :: "jsstring \<Rightarrow> jsstring" where
  "trim s = rev (dropWhile is_ws (rev (dropWhile is_ws s)))"

text \<open>\<open>s.indexOf(c)\<close> and \<open>s.lastIndexOf(c)\<close> for a one-unit search string: -1 when absent.\<close>

fun indexOf :: "jsstring \<Rightarrow> unit16 \<Rightarrow> int" where
  "indexOf [] c = -1"
| "indexOf (x # xs) c =
     (if x = c then 0
      else (let i = indexOf xs c in if i = -1 then -1 else i + 1))"

fun lastIndexOf :: "jsstring \<Rightarrow> unit16 \<Rightarrow> int" where
  "lastIndexOf [] c = -1"
| "lastIndexOf (x # xs) c =
     (let i = lastIndexOf xs c
      in if i \<noteq> -1 then i + 1 else if x = c then 0 else -1)"

text \<open>
  \<open>s.slice(a, b)\<close>: a negative index counts from the end, both are clamped to the
  length, and the result is empty when the end is not after the start.
\<close>

definition slice_index :: "jsstring \<Rightarrow> int \<Rightarrow> nat" where
  "slice_index s i =
     (if i < 0 then nat (max (int (length s) + i) 0) else nat (min i (int (length s))))"

definition slice_str :: "jsstring \<Rightarrow> int \<Rightarrow> int \<Rightarrow> jsstring" where
  "slice_str s a b = take (slice_index s b - slice_index s a) (drop (slice_index s a) s)"

text \<open>\<open>s.startsWith(p)\<close>.\<close>

definition startsWith :: "jsstring \<Rightarrow> jsstring \<Rightarrow> bool" where
  "startsWith s p = (take (length p) s = p)"

section \<open>JSON values and \<open>JSON.parse\<close>\<close>

text \<open>
  The values \<open>JSON.parse\<close> produces. A number is kept as the text of its token (its
  value is a double, which is not modelled). An object is the list of its own properties
  in creation order, one entry per key.
\<close>

datatype json =
    JNull
  | JBool bool
  | JNumber jsstring
  | JString jsstring
  | JArray "json list"
  | JObject "(jsstring \<times> json) list"

text \<open>
  Defining a property on an object: an existing key keeps its place and takes the new
  value, a new key goes last. (\<open>JSON.parse\<close> on a repeated key keeps the last value.)
\<close>

fun set_property :: "(jsstring \<times> json) list \<Rightarrow> jsstring \<Rightarrow> json \<Rightarrow> (jsstring \<times> json) list" where
  "set_property [] k v = [(k, v)]"
| "set_property ((k', v') # ps) k v =
     (if k' = k then (k, v) # ps else (k', v') # set_property ps k v)"

text \<open>
  The parser follows the JSON grammar of ECMA-404, which \<open>JSON.parse\<close> implements. A
  parser returns the value with the unread rest of the text, or a syntax error. The
  nesting of values is bounded by a fuel argument; \<open>JSON_parse\<close> supplies enough of it
  (lemma \<open>JSON_parse_fuel\<close>).
\<close>

datatype 'a parsed = Parsed 'a jsstring | SyntaxError | OutOfFuel

definition json_ws :: "unit16 \<Rightarrow> bool" where
  "json_ws c = (c = 0x20 \<or> c = 0x09 \<or> c = 0x0A \<or> c = 0x0D)"

definition skip_ws :: "jsstring \<Rightarrow> jsstring" where
  "skip_ws s = dropWhile json_ws s"

definition is_digit :: "unit16 \<Rightarrow> bool" where
  "is_digit c = (0x30 \<le> c \<and> c \<le> 0x39)"

definition hex_value :: "unit16 \<Rightarrow> unit16 option" where
  "hex_value c =
     (if 0x30 \<le> c \<and> c \<le> 0x39 then Some (c - 0x30)
      else if 0x41 \<le> c \<and> c \<le> 0x46 then Some (c - 0x37)
      else if 0x61 \<le> c \<and> c \<le> 0x66 then Some (c - 0x57)
      else None)"

text \<open>
  An escape sequence of a string token, after its backslash: the code unit it denotes and
  the rest of the text. Code unit 0x22 is the double quote and 0x5C the backslash.
\<close>

definition parse_escape :: "jsstring \<Rightarrow> (unit16 \<times> jsstring) option" where
  "parse_escape s =
     (case s of
        [] \<Rightarrow> None
      | e # es \<Rightarrow>
          if e = 0x22 \<or> e = 0x5C \<or> e = ch CHR ''/'' then Some (e, es)
          else if e = ch CHR ''b'' then Some (0x08, es)
          else if e = ch CHR ''f'' then Some (0x0C, es)
          else if e = ch CHR ''n'' then Some (0x0A, es)
          else if e = ch CHR ''r'' then Some (0x0D, es)
          else if e = ch CHR ''t'' then Some (0x09, es)
          else if e = ch CHR ''u'' then
            (case es of
               h1 # h2 # h3 # h4 # r \<Rightarrow>
                 (case (hex_value h1, hex_value h2, hex_value h3, hex_value h4) of
                    (Some a, Some b, Some c, Some d) \<Rightarrow>
                      Some (a * 0x1000 + b * 0x100 + c * 0x10 + d, r)
                  | _ \<Rightarrow> None)
             | _ \<Rightarrow> None)
          else None)"

lemma parse_escape_rest:
  "parse_escape s = Some (u, r) \<Longrightarrow> \<exists>m. s = m @ r \<and> m \<noteq> []"
  unfolding parse_escape_def
  by (auto split: list.splits if_splits option.splits)

lemma parse_escape_shorter:
  "parse_escape s = Some (u, r) \<Longrightarrow> length r < length s"
  using parse_escape_rest [of s u r] by auto

text \<open>
  The characters of a string token, after its opening quote: up to the closing quote,
  with the escapes decoded; a control character below U+0020 is refused.
\<close>

function parse_chars :: "jsstring \<Rightarrow> jsstring \<Rightarrow> jsstring parsed" where
  "parse_chars acc [] = SyntaxError"
| "parse_chars acc (c # cs) =
     (if c = 0x22 then Parsed acc cs
      else if c = 0x5C then
        (case parse_escape cs of
           None \<Rightarrow> SyntaxError
         | Some (u, r) \<Rightarrow> parse_chars (acc @ [u]) r)
      else if c < 0x20 then SyntaxError
      else parse_chars (acc @ [c]) cs)"
  by pat_completeness auto
termination
  by (relation "measure (\<lambda>(acc, s). length s)") (auto dest: parse_escape_shorter)

text \<open>A number token: \<open>-? (0 | [1-9][0-9]*) (. [0-9]+)? ([eE] [+-]? [0-9]+)?\<close>.\<close>

definition parse_int_part :: "jsstring \<Rightarrow> (jsstring \<times> jsstring) option" where
  "parse_int_part s =
     (case s of
        [] \<Rightarrow> None
      | c # cs \<Rightarrow>
          if c = ch CHR ''0'' then Some ([c], cs)
          else if is_digit c then Some (c # takeWhile is_digit cs, dropWhile is_digit cs)
          else None)"

definition parse_frac_part :: "jsstring \<Rightarrow> (jsstring \<times> jsstring) option" where
  "parse_frac_part s =
     (case s of
        [] \<Rightarrow> Some ([], s)
      | c # cs \<Rightarrow>
          if c = ch CHR ''.'' then
            (if takeWhile is_digit cs = [] then None
             else Some (c # takeWhile is_digit cs, dropWhile is_digit cs))
          else Some ([], s))"

definition parse_exp_part :: "jsstring \<Rightarrow> (jsstring \<times> jsstring) option" where
  "parse_exp_part s =
     (case s of
        [] \<Rightarrow> Some ([], s)
      | c # cs \<Rightarrow>
          if c = ch CHR ''e'' \<or> c = ch CHR ''E'' then
            (let (sign, ds) =
               (case cs of
                  [] \<Rightarrow> ([], cs)
                | d # ds \<Rightarrow> if d = ch CHR ''+'' \<or> d = ch CHR ''-'' then ([d], ds) else ([], cs))
             in if takeWhile is_digit ds = [] then None
                else Some (c # sign @ takeWhile is_digit ds, dropWhile is_digit ds))
          else Some ([], s))"

definition parse_number :: "jsstring \<Rightarrow> json parsed" where
  "parse_number s =
     (let (sign, s1) =
        (case s of
           [] \<Rightarrow> ([], s)
         | c # cs \<Rightarrow> if c = ch CHR ''-'' then ([c], cs) else ([], s))
      in case parse_int_part s1 of
           None \<Rightarrow> SyntaxError
         | Some (ip, s2) \<Rightarrow>
             (case parse_frac_part s2 of
                None \<Rightarrow> SyntaxError
              | Some (fp, s3) \<Rightarrow>
                  (case parse_exp_part s3 of
                     None \<Rightarrow> SyntaxError
                   | Some (ep, s4) \<Rightarrow> Parsed (JNumber (sign @ ip @ fp @ ep)) s4)))"

definition parse_literal :: "jsstring \<Rightarrow> json parsed" where
  "parse_literal s =
     (if take 4 s = str ''true'' then Parsed (JBool True) (drop 4 s)
      else if take 5 s = str ''false'' then Parsed (JBool False) (drop 5 s)
      else if take 4 s = str ''null'' then Parsed JNull (drop 4 s)
      else parse_number s)"

text \<open>
  \<open>parse_value\<close> reads one value at the head of the text; \<open>parse_elements\<close> reads the
  elements of an array after its opening bracket and \<open>parse_members\<close> the members of an
  object after its opening brace, both up to and including the closing one.
\<close>

fun parse_value :: "nat \<Rightarrow> jsstring \<Rightarrow> json parsed"
  and parse_elements :: "nat \<Rightarrow> json list \<Rightarrow> jsstring \<Rightarrow> json parsed"
  and parse_members :: "nat \<Rightarrow> (jsstring \<times> json) list \<Rightarrow> jsstring \<Rightarrow> json parsed"
where
  "parse_value 0 s = OutOfFuel"
| "parse_value (Suc n) s =
     (case s of
        [] \<Rightarrow> SyntaxError
      | c # cs \<Rightarrow>
          if c = ch CHR ''{'' then
            (case skip_ws cs of
               [] \<Rightarrow> SyntaxError
             | d # ds \<Rightarrow>
                 if d = ch CHR ''}'' then Parsed (JObject []) ds
                 else parse_members n [] (d # ds))
          else if c = ch CHR ''['' then
            (case skip_ws cs of
               [] \<Rightarrow> SyntaxError
             | d # ds \<Rightarrow>
                 if d = ch CHR '']'' then Parsed (JArray []) ds
                 else parse_elements n [] (d # ds))
          else if c = 0x22 then
            (case parse_chars [] cs of
               Parsed t r \<Rightarrow> Parsed (JString t) r
             | SyntaxError \<Rightarrow> SyntaxError
             | OutOfFuel \<Rightarrow> OutOfFuel)
          else parse_literal s)"
| "parse_elements 0 acc s = OutOfFuel"
| "parse_elements (Suc n) acc s =
     (case parse_value n s of
        Parsed v r \<Rightarrow>
          (case skip_ws r of
             [] \<Rightarrow> SyntaxError
           | d # ds \<Rightarrow>
               if d = ch CHR '','' then parse_elements n (acc @ [v]) (skip_ws ds)
               else if d = ch CHR '']'' then Parsed (JArray (acc @ [v])) ds
               else SyntaxError)
      | SyntaxError \<Rightarrow> SyntaxError
      | OutOfFuel \<Rightarrow> OutOfFuel)"
| "parse_members 0 acc s = OutOfFuel"
| "parse_members (Suc n) acc s =
     (case s of
        [] \<Rightarrow> SyntaxError
      | q # s1 \<Rightarrow>
          if q \<noteq> 0x22 then SyntaxError
          else
            (case parse_chars [] s1 of
               Parsed k s2 \<Rightarrow>
                 (case skip_ws s2 of
                    [] \<Rightarrow> SyntaxError
                  | col # s3 \<Rightarrow>
                      if col \<noteq> ch CHR '':'' then SyntaxError
                      else
                        (case parse_value n (skip_ws s3) of
                           Parsed v r \<Rightarrow>
                             (case skip_ws r of
                                [] \<Rightarrow> SyntaxError
                              | d # ds \<Rightarrow>
                                  if d = ch CHR '','' then
                                    parse_members n (set_property acc k v) (skip_ws ds)
                                  else if d = ch CHR ''}'' then
                                    Parsed (JObject (set_property acc k v)) ds
                                  else SyntaxError)
                         | SyntaxError \<Rightarrow> SyntaxError
                         | OutOfFuel \<Rightarrow> OutOfFuel))
             | SyntaxError \<Rightarrow> SyntaxError
             | OutOfFuel \<Rightarrow> OutOfFuel))"

text \<open>
  \<open>JSON.parse(s)\<close>: one value between optional white space; \<open>None\<close> is the SyntaxError
  it throws.
\<close>

definition JSON_parse :: "jsstring \<Rightarrow> json option" where
  "JSON_parse s =
     (case parse_value (Suc (2 * length s)) (skip_ws s) of
        Parsed v r \<Rightarrow> if skip_ws r = [] then Some v else None
      | SyntaxError \<Rightarrow> None
      | OutOfFuel \<Rightarrow> None)"

section \<open>\<open>extractJson\<close>\<close>

text \<open>
  \<open>raw.replace(/^```(?:json)?\s*/i, "")\<close>: at the start of the text, three backquotes
  (code unit 0x60), then \<open>json\<close> in either case when it is there, then all the white space
  that follows. Every part after the backquotes may be empty, so the greedy match never
  backtracks.
\<close>

definition fence :: jsstring where
  "fence = [0x60, 0x60, 0x60]"

definition ascii_lower :: "unit16 \<Rightarrow> unit16" where
  "ascii_lower c = (if 0x41 \<le> c \<and> c \<le> 0x5A then c + 0x20 else c)"

definition strip_opening_fence :: "jsstring \<Rightarrow> jsstring" where
  "strip_opening_fence raw =
     (if take 3 raw = fence then
        (let r = drop 3 raw;
             r' = (if map ascii_lower (take 4 r) = str ''json'' then drop 4 r else r)
         in dropWhile is_ws r')
      else raw)"

text \<open>
  \<open>s.replace(/\s*```\s*$/i, "")\<close>: the leftmost position from which the rest of the text
  is white space, three backquotes, white space; the match runs to the end of the text
  and is removed. At one position the pattern matches iff the backquotes follow all the
  white space there and only white space follows them.
\<close>

definition closing_fence_here :: "jsstring \<Rightarrow> bool" where
  "closing_fence_here s =
     (let r = dropWhile is_ws s
      in take 3 r = fence \<and> dropWhile is_ws (drop 3 r) = [])"

fun strip_closing_fence :: "jsstring \<Rightarrow> jsstring" where
  "strip_closing_fence [] = []"
| "strip_closing_fence (c # cs) =
     (if closing_fence_here (c # cs) then [] else c # strip_closing_fence cs)"

definition fenceStripped :: "jsstring \<Rightarrow> jsstring" where
  "fenceStripped raw = trim (strip_closing_fence (strip_opening_fence raw))"

text \<open>
  \<open>raw.match(/\{[\s\S]*\}/)\<close>: from the leftmost opening brace that has a closing brace
  after it, the greedy \<open>[\s\S]*\<close> (any code unit) runs to the end of the text and gives
  back up to the last closing brace.
\<close>

definition greedy_to_rbrace :: "jsstring \<Rightarrow> jsstring option" where
  "greedy_to_rbrace cs =
     (if ch CHR ''}'' \<in> set cs
      then Some (rev (dropWhile (\<lambda>x. x \<noteq> ch CHR ''}'') (rev cs)))
      else None)"

fun regexMatch :: "jsstring \<Rightarrow> jsstring option" where
  "regexMatch [] = None"
| "regexMatch (c # cs) =
     (if c = ch CHR ''{'' then
        (case greedy_to_rbrace cs of
           Some m \<Rightarrow> Some (c # m)
         | None \<Rightarrow> regexMatch cs)
      else regexMatch cs)"

text \<open>The values of \<open>!v\<close>, \<open>typeof v\<close> and \<open>Array.isArray(v)\<close> on a parsed value.\<close>

fun falsy :: "json \<Rightarrow> bool" where
  "falsy JNull = True"
| "falsy (JBool b) = (\<not> b)"
| "falsy (JNumber t) =
     (\<forall>c \<in> set (takeWhile (\<lambda>c. c \<noteq> ch CHR ''e'' \<and> c \<noteq> ch CHR ''E'') t). \<not> (0x31 \<le> c \<and> c \<le> 0x39))"
| "falsy (JString s) = (s = [])"
| "falsy (JArray xs) = False"
| "falsy (JObject kvs) = False"

fun typeof :: "json \<Rightarrow> string" where
  "typeof JNull = ''object''"
| "typeof (JBool b) = ''boolean''"
| "typeof (JNumber t) = ''number''"
| "typeof (JString s) = ''string''"
| "typeof (JArray xs) = ''object''"
| "typeof (JObject kvs) = ''object''"

fun isArray :: "json \<Rightarrow> bool" where
  "isArray (JArray xs) = True"
| "isArray v = False"

text \<open>
  The candidates, in the order the source pushes them: the text without its code fences,
  the text from the first opening brace to the last closing brace, the regular
  expression's match.
\<close>

definition attempts :: "jsstring \<Rightarrow> jsstring list" where
  "attempts raw =
     (let firstBrace = indexOf raw (ch CHR ''{'');
          lastBrace = lastIndexOf raw (ch CHR ''}'')
      in [fenceStripped raw]
         @ (if firstBrace \<noteq> -1 \<and> lastBrace > firstBrace
            then [slice_str raw firstBrace (lastBrace + 1)] else [])
         @ (case regexMatch raw of Some m \<Rightarrow> [m] | None \<Rightarrow> []))"

text \<open>
  The loop over the candidates: a candidate that does not parse is skipped (the
  \<open>catch\<close>), and so is one that parses to a value failing
  \<open>obj && typeof obj === "object" && !Array.isArray(obj)\<close>; the first other one is returned.
  \<open>None\<close> is the \<open>null\<close> returned after the loop.
\<close>

fun first_object :: "jsstring list \<Rightarrow> json option" where
  "first_object [] = None"
| "first_object (candidate # rest) =
     (case JSON_parse candidate of
        None \<Rightarrow> first_object rest
      | Some obj \<Rightarrow>
          if \<not> falsy obj \<and> typeof obj = ''object'' \<and> \<not> isArray obj then Some obj
          else first_object rest)"

definition extractJson :: "jsstring \<Rightarrow> json option" where
  "extractJson raw = first_object (attempts raw)"

section \<open>Promises, thrown values and the calls to external services\<close>

text \<open>
  A thrown value is an \<open>Error\<close> instance with its message, or some other value.
  Errors raised by the language itself (a TypeError on reading a property of \<open>null\<close>)
  carry the message V8 gives them. \<open>message_of\<close> is \<open>err.message\<close>, \<open>None\<close> being
  \<open>undefined\<close>.
\<close>

datatype thrown = ErrorObj jsstring | NonError

fun message_of :: "thrown \<Rightarrow> jsstring option" where
  "message_of (ErrorObj m) = Some m"
| "message_of NonError = None"

fun instanceof_Error :: "thrown \<Rightarrow> bool" where
  "instanceof_Error (ErrorObj m) = True"
| "instanceof_Error NonError = False"

text \<open>
  The observable events of one request: the calls to the three external services with
  their arguments, and the console output. A list of events is in the order in which one
  chain of promises produces them.
\<close>

datatype event =
    MessagesCreate jsstring jsstring jsstring
  | Put jsstring jsstring jsstring
  | Fetch jsstring jsstring
  | Del jsstring
  | ConsoleLog jsstring jsstring
  | ConsoleWarn jsstring "jsstring option"
  | ConsoleError jsstring jsstring

text \<open>
  A promise that has run to its end: how it settled and the events it produced.
  \<open>p_then\<close>, \<open>p_catch\<close> and \<open>p_finally\<close> are \<open>.then(f)\<close>, \<open>.catch(h)\<close> and
  \<open>.finally(g)\<close>: \<open>finally\<close> keeps the outcome of the promise unless its callback
  rejects.
\<close>

datatype 'a settled = Resolved 'a | Rejected thrown

type_synonym 'a promise = "'a settled \<times> event list"

definition p_then :: "'a promise \<Rightarrow> ('a \<Rightarrow> 'b promise) \<Rightarrow> 'b promise" where
  "p_then p f =
     (case p of
        (Resolved v, es) \<Rightarrow> (case f v of (r, es') \<Rightarrow> (r, es @ es'))
      | (Rejected e, es) \<Rightarrow> (Rejected e, es))"

definition p_catch :: "'a promise \<Rightarrow> (thrown \<Rightarrow> 'a promise) \<Rightarrow> 'a promise" where
  "p_catch p h =
     (case p of
        (Resolved v, es) \<Rightarrow> (Resolved v, es)
      | (Rejected e, es) \<Rightarrow> (case h e of (r, es') \<Rightarrow> (r, es @ es')))"

definition p_finally :: "'a promise \<Rightarrow> (unit \<Rightarrow> 'b promise) \<Rightarrow> 'a promise" where
  "p_finally p g =
     (case p of
        (outcome, es) \<Rightarrow>
          (case g () of
             (Resolved u, es') \<Rightarrow> (outcome, es @ es')
           | (Rejected e, es') \<Rightarrow> (Rejected e, es @ es')))"

text \<open>
  \<open>Promise.all([a, b])\<close>: both promises run; the result is the pair of their values, or
  the rejection. When both reject, the one that rejects first in time wins, which is not
  modelled: the first is taken. The handler passes a second promise that never rejects
  (lemma \<open>webResultsPromise_resolves\<close>).
\<close>

definition Promise_all :: "'a promise \<Rightarrow> 'b promise \<Rightarrow> ('a \<times> 'b) promise" where
  "Promise_all a b =
     (case (a, b) of
        ((Resolved x, es), (Resolved y, es')) \<Rightarrow> (Resolved (x, y), es @ es')
      | ((Rejected e, es), (r, es')) \<Rightarrow> (Rejected e, es @ es')
      | ((Resolved x, es), (Rejected e, es')) \<Rightarrow> (Rejected e, es @ es'))"

text \<open>
  The environment of one request: the three environment variables (\<open>None\<close> when unset),
  and what each external service does when called. The storage and search clients fail
  by rejecting with an \<open>Error\<close> instance, given by its message; \<open>fetch_lens\<close> fails so on
  a network error and when the 15 second \<open>AbortSignal.timeout\<close> fires.
\<close>

datatype content_block = TextBlock jsstring | OtherBlock

record lens_response =
  status_code :: nat
  json_body :: "jsstring + json"

record world =
  ANTHROPIC_API_KEY :: "jsstring option"
  SERPAPI_KEY :: "jsstring option"
  BLOB_READ_WRITE_TOKEN :: "jsstring option"
  messages_create :: "jsstring \<Rightarrow> jsstring \<Rightarrow> jsstring \<Rightarrow> thrown + content_block list"
  randomUUID :: jsstring
  put :: "jsstring \<Rightarrow> jsstring \<Rightarrow> jsstring \<Rightarrow> jsstring + jsstring"
  fetch_lens :: "jsstring \<Rightarrow> jsstring \<Rightarrow> jsstring + lens_response"
  del :: "jsstring \<Rightarrow> jsstring option"

text \<open>The truth value of an environment variable: unset and empty are falsy.\<close>

definition truthy_env :: "jsstring option \<Rightarrow> bool" where
  "truthy_env v = (case v of None \<Rightarrow> False | Some s \<Rightarrow> s \<noteq> [])"

section \<open>Reading properties\<close>

text \<open>
  The result of reading a property: \<open>undefined\<close>, a JSON value, or an inherited method.
  \<open>get v k\<close> is \<open>v.k\<close> for the property names this program reads (\<open>image\<close>,
  \<open>mediaType\<close>, \<open>visual_matches\<close>, \<open>title\<close>, \<open>price\<close>, \<open>value\<close>, \<open>link\<close>, \<open>source\<close>,
  \<open>thumbnail\<close>): on \<open>null\<close> it throws a TypeError, an object gives its own property, and
  the prototypes of the other values define none of these names but
  \<open>String.prototype.link\<close>.
\<close>

datatype property = Undefined | Value json | Method

fun lookup :: "(jsstring \<times> json) list \<Rightarrow> jsstring \<Rightarrow> property" where
  "lookup [] k = Undefined"
| "lookup ((k', v) # ps) k = (if k' = k then Value v else lookup ps k)"

fun get :: "json \<Rightarrow> jsstring \<Rightarrow> thrown + property" where
  "get JNull k =
     Inl (ErrorObj (str ''Cannot read properties of null (reading '' @ [0x27] @ k @ [0x27] @ str '')''))"
| "get (JObject kvs) k = Inr (lookup kvs k)"
| "get (JString s) k = Inr (if k = str ''link'' then Method else Undefined)"
| "get (JBool b) k = Inr Undefined"
| "get (JNumber t) k = Inr Undefined"
| "get (JArray xs) k = Inr Undefined"

text \<open>\<open>a ?? b\<close>, \<open>!a\<close> and \<open>typeof a\<close> on the result of reading a property.\<close>

fun nullish :: "property \<Rightarrow> bool" where
  "nullish Undefined = True"
| "nullish (Value JNull) = True"
| "nullish p = False"

definition coalesce :: "property \<Rightarrow> property \<Rightarrow> property" where
  "coalesce a b = (if nullish a then b else a)"

fun falsy_property :: "property \<Rightarrow> bool" where
  "falsy_property Undefined = True"
| "falsy_property (Value v) = falsy v"
| "falsy_property Method = False"

fun typeof_property :: "property \<Rightarrow> string" where
  "typeof_property Undefined = ''undefined''"
| "typeof_property (Value v) = typeof v"
| "typeof_property Method = ''function''"

section \<open>\<open>fetchClaudeAnalysis\<close>\<close>

text \<open>
  One call to \<open>client.messages.create\<close> with the image and its media type; the texts of
  the reply's text blocks are joined, logged and given to \<open>extractJson\<close>. The client is
  its API key.
\<close>

fun block_text :: "content_block \<Rightarrow> jsstring" where
  "block_text (TextBlock t) = t"
| "block_text OtherBlock = []"

fun is_text :: "content_block \<Rightarrow> bool" where
  "is_text (TextBlock t) = True"
| "is_text OtherBlock = False"

definition rawText_of :: "content_block list \<Rightarrow> jsstring" where
  "rawText_of content = concat (map block_text (filter is_text content))"

definition fetchClaudeAnalysis :: "world \<Rightarrow> jsstring \<Rightarrow> jsstring \<Rightarrow> jsstring \<Rightarrow> json promise" where
  "fetchClaudeAnalysis w client img mediaType =
     (case messages_create w client mediaType img of
        Inl e \<Rightarrow> (Rejected e, [MessagesCreate client mediaType img])
      | Inr content \<Rightarrow>
          (let rawText = rawText_of content;
               es = [MessagesCreate client mediaType img,
                     ConsoleLog (str ''[Claude raw response]'') rawText]
           in case extractJson rawText of
                None \<Rightarrow>
                  (Rejected (ErrorObj (str ''Could not extract JSON from Claude response: '' @ rawText)), es)
              | Some parsed \<Rightarrow> (Resolved parsed, es)))"

section \<open>\<open>uploadImage\<close> and \<open>deleteBlob\<close>\<close>

text \<open>\<open>s.split(sep)\<close> for a one-unit separator and \<open>s.replace(p, r)\<close> for a string pattern.\<close>

fun split_on :: "unit16 \<Rightarrow> jsstring \<Rightarrow> jsstring list" where
  "split_on sep [] = [[]]"
| "split_on sep (c # cs) =
     (if c = sep then [] # split_on sep cs
      else (case split_on sep cs of
              [] \<Rightarrow> [[c]]
            | p # ps \<Rightarrow> (c # p) # ps))"

fun replace_first :: "jsstring \<Rightarrow> jsstring \<Rightarrow> jsstring \<Rightarrow> jsstring" where
  "replace_first p r [] = (if p = [] then r else [])"
| "replace_first p r (c # cs) =
     (if take (length p) (c # cs) = p then r @ drop (length p) (c # cs)
      else c # replace_first p r cs)"

text \<open>
  \<open>mediaType.split("/")[1]?.replace("jpeg", "jpg") ?? "jpg"\<close>, then one \<open>put\<close> of the
  image under a fresh name; the promise resolves to the URL of the blob. The decoding of
  the base64 text to bytes is not modelled: the call is recorded with the text.
\<close>

definition extension :: "jsstring \<Rightarrow> jsstring" where
  "extension mediaType =
     (case split_on (ch CHR ''/'') mediaType of
        p # e # ps \<Rightarrow> replace_first (str ''jpeg'') (str ''jpg'') e
      | _ \<Rightarrow> str ''jpg'')"

definition uploadImage :: "world \<Rightarrow> jsstring \<Rightarrow> jsstring \<Rightarrow> jsstring promise" where
  "uploadImage w data mediaType =
     (let filename = str ''temp-scans/'' @ randomUUID w @ str ''.'' @ extension mediaType
      in case put w filename data mediaType of
           Inl m \<Rightarrow> (Rejected (ErrorObj m), [Put filename data mediaType])
         | Inr url \<Rightarrow> (Resolved url, [Put filename data mediaType]))"

definition deleteBlob :: "world \<Rightarrow> jsstring \<Rightarrow> unit promise" where
  "deleteBlob w url =
     (case del w url of
        None \<Rightarrow> (Resolved (), [Del url])
      | Some m \<Rightarrow> (Rejected (ErrorObj m), [Del url]))"

section \<open>\<open>fetchLensResults\<close>\<close>

text \<open>
  A \<open>WebResult\<close> as the source builds it. A field holds whatever the provider sent; 
  \<open>Method\<close> can only stand in \<open>link\<close>, for a match that is a JSON string.
\<close>

record WebResult =
  title :: property
  price :: property
  link :: property
  source :: property
  thumbnail :: property

text \<open>\<open>m.price?.value\<close>: \<open>undefined\<close> when \<open>m.price\<close> is \<open>null\<close> or \<open>undefined\<close>.\<close>

definition price_value :: "property \<Rightarrow> property" where
  "price_value p =
     (case p of
        Value v \<Rightarrow> (if v = JNull then Undefined
                    else (case get v (str ''value'') of Inl e \<Rightarrow> Undefined | Inr q \<Rightarrow> q))
      | _ \<Rightarrow> Undefined)"

text \<open>The callback of \<open>map\<close>: the first property read throws when the match is \<open>null\<close>.\<close>

definition toWebResult :: "json \<Rightarrow> thrown + WebResult" where
  "toWebResult m =
     (case get m (str ''title'') of
        Inl e \<Rightarrow> Inl e
      | Inr t \<Rightarrow>
          Inr \<lparr> title = coalesce t (Value (JString (str ''Unknown''))),
                price = coalesce (price_value (case get m (str ''price'') of Inl e \<Rightarrow> Undefined | Inr p \<Rightarrow> p))
                          (Value JNull),
                link = coalesce (case get m (str ''link'') of Inl e \<Rightarrow> Undefined | Inr p \<Rightarrow> p)
                         (Value (JString [])),
                source = coalesce (case get m (str ''source'') of Inl e \<Rightarrow> Undefined | Inr p \<Rightarrow> p)
                           (Value (JString [])),
                thumbnail = coalesce (case get m (str ''thumbnail'') of Inl e \<Rightarrow> Undefined | Inr p \<Rightarrow> p)
                              (Value JNull) \<rparr>)"

text \<open>\<open>xs.map(f)\<close> with a callback that may throw: the first throw ends the loop.\<close>

fun map_throwing :: "('a \<Rightarrow> thrown + 'b) \<Rightarrow> 'a list \<Rightarrow> thrown + 'b list" where
  "map_throwing f [] = Inr []"
| "map_throwing f (x # xs) =
     (case f x of
        Inl e \<Rightarrow> Inl e
      | Inr y \<Rightarrow> (case map_throwing f xs of Inl e \<Rightarrow> Inl e | Inr ys \<Rightarrow> Inr (y # ys)))"

text \<open>
  \<open>const matches = data.visual_matches ?? []\<close> and
  \<open>matches.slice(0, 5).map(...)\<close>. A value that is not an array has no \<open>slice\<close> method,
  and the \<open>slice\<close> of a string is a string, which has no \<open>map\<close>.
\<close>

definition visual_matches :: "json \<Rightarrow> thrown + WebResult list" where
  "visual_matches data =
     (case get data (str ''visual_matches'') of
        Inl e \<Rightarrow> Inl e
      | Inr p \<Rightarrow>
          (case coalesce p (Value (JArray [])) of
             Value (JArray matches) \<Rightarrow> map_throwing toWebResult (take 5 matches)
           | Value (JString s) \<Rightarrow> Inl (ErrorObj (str ''matches.slice(...).map is not a function''))
           | _ \<Rightarrow> Inl (ErrorObj (str ''matches.slice is not a function''))))"

text \<open>The decimal text of a number, for \<open>${res.status}\<close>.\<close>

fun decimal :: "nat \<Rightarrow> jsstring" where
  "decimal n =
     (if n < 10 then [0x30 + of_nat n]
      else decimal (n div 10) @ [0x30 + of_nat (n mod 10)])"

text \<open>
  One \<open>fetch\<close> of the search URL built from the image URL and the API key; a status
  outside 200..299 throws, \<open>res.json()\<close> may reject, and the matches are mapped.
\<close>

definition fetchLensResults :: "world \<Rightarrow> jsstring \<Rightarrow> jsstring \<Rightarrow> WebResult list promise" where
  "fetchLensResults w imageUrl apiKey =
     (case fetch_lens w imageUrl apiKey of
        Inl m \<Rightarrow> (Rejected (ErrorObj m), [Fetch imageUrl apiKey])
      | Inr res \<Rightarrow>
          if \<not> (200 \<le> status_code res \<and> status_code res \<le> 299) then
            (Rejected (ErrorObj (str ''SerpApi responded with '' @ decimal (status_code res))),
             [Fetch imageUrl apiKey])
          else
            (case json_body res of
               Inl m \<Rightarrow> (Rejected (ErrorObj m), [Fetch imageUrl apiKey])
             | Inr data \<Rightarrow>
                 (case visual_matches data of
                    Inl e \<Rightarrow> (Rejected e, [Fetch imageUrl apiKey])
                  | Inr results \<Rightarrow> (Resolved results, [Fetch imageUrl apiKey]))))"

section \<open>The route handler \<open>POST\<close>\<close>

record response =
  status :: nat
  payload :: json

text \<open>
  \<open>NextResponse.json(value, {status})\<close> serialises the value with \<open>JSON.stringify\<close>,
  which leaves out a property whose value is \<open>undefined\<close> or a function.
\<close>

fun field :: "string \<Rightarrow> property \<Rightarrow> (jsstring \<times> json) list" where
  "field k (Value v) = [(str k, v)]"
| "field k Undefined = []"
| "field k Method = []"

definition WebResult_json :: "WebResult \<Rightarrow> json" where
  "WebResult_json r =
     JObject (field ''title'' (title r) @ field ''price'' (price r) @ field ''link'' (link r)
              @ field ''source'' (source r) @ field ''thumbnail'' (thumbnail r))"

definition VALID_MEDIA_TYPES :: "jsstring list" where
  "VALID_MEDIA_TYPES = [str ''image/jpeg'', str ''image/png'', str ''image/gif'', str ''image/webp'']"

definition resolvedMediaType :: "property \<Rightarrow> jsstring" where
  "resolvedMediaType mediaType =
     (case mediaType of
        Value (JString s) \<Rightarrow> if s \<in> set VALID_MEDIA_TYPES then s else str ''image/jpeg''
      | _ \<Rightarrow> str ''image/jpeg'')"

text \<open>
  The enrichment chain: when both optional keys are set, upload, then search, then delete
  the blob whatever the search did, a failed delete being logged and dropped; any
  rejection of the chain is logged and replaced by the empty list. Otherwise the empty
  list at once.
\<close>

definition webResultsPromise :: "world \<Rightarrow> jsstring \<Rightarrow> jsstring \<Rightarrow> WebResult list promise" where
  "webResultsPromise w img mediaType =
     (if truthy_env (SERPAPI_KEY w) \<and> truthy_env (BLOB_READ_WRITE_TOKEN w) then
        p_catch
          (p_then (uploadImage w img mediaType)
             (\<lambda>blobUrl.
                p_finally (fetchLensResults w blobUrl (the (SERPAPI_KEY w)))
                  (\<lambda>u. p_catch (deleteBlob w blobUrl)
                         (\<lambda>e. (Resolved (),
                                [ConsoleWarn (str ''Blob cleanup failed (non-fatal):'') (message_of e)])))))
          (\<lambda>err. (Resolved [],
                   [ConsoleWarn (str ''SerpApi/Blob flow failed (non-fatal):'') (message_of err)]))
      else (Resolved [], []))"

text \<open>The two error responses of the final \<open>catch\<close>, chosen by the start of the message.\<close>

definition scan_error_response :: "jsstring \<Rightarrow> response" where
  "scan_error_response msg =
     (if startsWith msg (str ''Could not extract JSON'') then
        \<lparr> status = 502,
          payload = JObject [(str ''error'', JString (str ''Claude returned an unexpected response format.'')),
                          (str ''raw'', JString msg)] \<rparr>
      else
        \<lparr> status = 502,
          payload = JObject [(str ''error'', JString (str ''API request failed: '' @ msg))] \<rparr>)"

text \<open>
  \<open>{ ...claudeResult, webResults }\<close>: the properties of the analysis, then
  \<open>webResults\<close> defined on the copy.
\<close>

definition success_body :: "json \<Rightarrow> WebResult list \<Rightarrow> json" where
  "success_body claudeResult webResults =
     JObject (set_property (case claudeResult of JObject kvs \<Rightarrow> kvs | _ \<Rightarrow> [])
                (str ''webResults'') (JArray (map WebResult_json webResults)))"

text \<open>
  The handler. The request is the outcome of \<open>req.json()\<close>, \<open>None\<close> when it rejects.
  The result is the response, or the value thrown out of the handler: the destructuring
  of a \<open>null\<close> body throws outside every \<open>try\<close>. The events are those of the vision call
  followed by those of the enrichment chain, each chain run to its end.
\<close>

definition POST :: "world \<Rightarrow> json option \<Rightarrow> (thrown + response) \<times> event list" where
  "POST w req =
     (if \<not> truthy_env (ANTHROPIC_API_KEY w) then
        (Inr \<lparr> status = 500,
               payload = JObject [(str ''error'',
                        JString (str ''ANTHROPIC_API_KEY environment variable is not set.''))] \<rparr>, [])
      else
        (case req of
           None \<Rightarrow>
             (Inr \<lparr> status = 400,
                    payload = JObject [(str ''error'', JString (str ''Invalid JSON body.''))] \<rparr>, [])
         | Some JNull \<Rightarrow>
             (Inl (ErrorObj (str ''Cannot destructure property '' @ [0x27] @ str ''image'' @ [0x27]
                      @ str '' of '' @ [0x27] @ str ''body'' @ [0x27] @ str '' as it is null.'')), [])
         | Some body \<Rightarrow>
             (let img = (case get body (str ''image'') of Inl e \<Rightarrow> Undefined | Inr p \<Rightarrow> p);
                  mediaType = (case get body (str ''mediaType'') of Inl e \<Rightarrow> Undefined | Inr p \<Rightarrow> p)
              in if falsy_property img \<or> typeof_property img \<noteq> ''string'' then
                   (Inr \<lparr> status = 400,
                          payload = JObject [(str ''error'',
                                   JString (str ''Missing base64 image in request body.''))] \<rparr>, [])
                 else
                   (let data = (case img of Value (JString s) \<Rightarrow> s | _ \<Rightarrow> []);
                        claudePromise =
                          fetchClaudeAnalysis w (the (ANTHROPIC_API_KEY w)) data
                            (resolvedMediaType mediaType);
                        enrichment = webResultsPromise w data (resolvedMediaType mediaType)
                    in case Promise_all claudePromise enrichment of
                         (Resolved (claudeResult, webResults), es) \<Rightarrow>
                           (Inr \<lparr> status = 200, payload = success_body claudeResult webResults \<rparr>, es)
                       | (Rejected err, es) \<Rightarrow>
                           (let msg = (if instanceof_Error err then the (message_of err)
                                       else str ''Unknown error'')
                            in (Inr (scan_error_response msg),
                                es @ [ConsoleError (str ''Scan error:'') msg]))))))"

section \<open>Properties of the parser\<close>

text \<open>What a successful parser has read, and that the fuel of \<open>JSON_parse\<close> is enough.\<close>

lemma parse_chars_rest:
  "parse_chars acc s = Parsed t r \<Longrightarrow> \<exists>m. s = m @ 0x22 # r"
proof (induction acc s rule: parse_chars.induct)
  case (1 acc)
  then show ?case by simp
next
  case (2 acc c cs)
  show ?case
  proof (cases "c = 0x22")
    case True
    with 2(3) show ?thesis by auto
  next
    case nq: False
    show ?thesis
    proof (cases "c = 0x5C")
      case True
      with nq 2(3) obtain u r' where e: "parse_escape cs = Some (u, r')"
        and p: "parse_chars (acc @ [u]) r' = Parsed t r"
        by (auto split: option.splits)
      from 2(1) [OF nq True e refl p] obtain m where "r' = m @ 0x22 # r" ..
      moreover from parse_escape_rest [OF e] obtain m' where "cs = m' @ r'" by blast
      ultimately have "c # cs = (c # m' @ m) @ 0x22 # r" by simp
      then show ?thesis by blast
    next
      case False
      with nq 2(3) have p: "parse_chars (acc @ [c]) cs = Parsed t r" and lt: "\<not> c < 0x20"
        by (auto split: if_splits)
      from 2(2) [OF nq False lt p] obtain m where "cs = m @ 0x22 # r" ..
      then have "c # cs = (c # m) @ 0x22 # r" by simp
      then show ?thesis by blast
    qed
  qed
qed

lemma parse_chars_fuel: "parse_chars acc s \<noteq> OutOfFuel"
proof (induction acc s rule: parse_chars.induct)
  case (1 acc)
  then show ?case by simp
next
  case (2 acc c cs)
  show ?case
  proof (cases "parse_escape cs")
    case None
    with 2(2) show ?thesis by simp
  next
    case (Some a)
    obtain u r where "a = (u, r)" by (cases a)
    with Some 2 show ?thesis by simp
  qed
qed

lemma parse_int_part_rest:
  "parse_int_part s = Some (t, r) \<Longrightarrow> s = t @ r \<and> t \<noteq> []"
  unfolding parse_int_part_def
  by (cases s) (auto split: if_splits)

lemma parse_frac_part_rest:
  "parse_frac_part s = Some (t, r) \<Longrightarrow> s = t @ r"
  unfolding parse_frac_part_def
  by (cases s) (auto split: if_splits)

lemma parse_exp_part_rest:
  "parse_exp_part s = Some (t, r) \<Longrightarrow> s = t @ r"
  unfolding parse_exp_part_def
  by (cases s) (auto split: if_splits list.splits simp: Let_def)

lemma parse_number_rest:
  assumes "parse_number s = Parsed v r"
  shows "(\<exists>m. s = m @ r \<and> m \<noteq> []) \<and> (\<exists>t. v = JNumber t)"
proof -
  obtain sign s1 where ss: "(case s of [] \<Rightarrow> ([], s)
         | c # cs \<Rightarrow> if c = ch CHR ''-'' then ([c], cs) else ([], s)) = (sign, s1)"
    by (cases "(case s of [] \<Rightarrow> ([], s)
         | c # cs \<Rightarrow> if c = ch CHR ''-'' then ([c], cs) else ([], s))")
  then have s: "s = sign @ s1" by (auto split: list.splits if_splits)
  from assms ss obtain ip s2 fp s3 ep s4 where
    i: "parse_int_part s1 = Some (ip, s2)" and f: "parse_frac_part s2 = Some (fp, s3)"
    and e: "parse_exp_part s3 = Some (ep, s4)" and v: "v = JNumber (sign @ ip @ fp @ ep)" and r: "r = s4"
    unfolding parse_number_def by (auto split: option.splits)
  from parse_int_part_rest [OF i] parse_frac_part_rest [OF f] parse_exp_part_rest [OF e] s r
  have "s = (sign @ ip @ fp @ ep) @ r" "sign @ ip @ fp @ ep \<noteq> []" by auto
  with v show ?thesis by blast
qed

lemma take_Cons_split:
  "take n s = c # t \<Longrightarrow> \<exists>m. s = m @ drop n s \<and> m \<noteq> []"
  by (metis append_take_drop_id list.distinct(1))

lemma parse_literal_rest:
  assumes "parse_literal s = Parsed v r"
  shows "(\<exists>m. s = m @ r \<and> m \<noteq> []) \<and> (\<forall>kvs. v \<noteq> JObject kvs)"
proof (cases "take 4 s = str ''true''")
  case True
  with assms have "v = JBool True" "r = drop 4 s" by (auto simp: parse_literal_def)
  with True take_Cons_split [of 4 s] show ?thesis by (simp add: str_def)
next
  case nt: False
  show ?thesis
  proof (cases "take 5 s = str ''false''")
    case True
    with nt assms have "v = JBool False" "r = drop 5 s" by (auto simp: parse_literal_def)
    with True take_Cons_split [of 5 s] show ?thesis by (simp add: str_def)
  next
    case nf: False
    show ?thesis
    proof (cases "take 4 s = str ''null''")
      case True
      with nt nf assms have "v = JNull" "r = drop 4 s" by (auto simp: parse_literal_def)
      with True take_Cons_split [of 4 s] show ?thesis by (simp add: str_def)
    next
      case False
      with nt nf assms have "parse_number s = Parsed v r" by (simp add: parse_literal_def)
      from parse_number_rest [OF this] show ?thesis by auto
    qed
  qed
qed

lemma parse_literal_fuel: "parse_literal s \<noteq> OutOfFuel"
  unfolding parse_literal_def parse_number_def
  by (auto split: option.splits prod.splits)

lemma skip_ws_split: "\<exists>w. s = w @ skip_ws s \<and> (\<forall>c\<in>set w. json_ws c)"
  unfolding skip_ws_def
  by (metis takeWhile_dropWhile_id set_takeWhileD)

lemma skip_ws_length: "length (skip_ws s) \<le> length s"
  unfolding skip_ws_def by (simp add: length_dropWhile_le)

lemma parse_value_SucE:
  assumes "parse_value (Suc n) s = Parsed v r"
  obtains (Obj0) cs ds where "s = ch CHR ''{'' # cs" "skip_ws cs = ch CHR ''}'' # ds" "v = JObject []" "r = ds"
  | (Obj) cs d ds where "s = ch CHR ''{'' # cs" "skip_ws cs = d # ds" "d \<noteq> ch CHR ''}''"
      "parse_members n [] (d # ds) = Parsed v r"
  | (Arr0) cs ds where "s = ch CHR ''['' # cs" "skip_ws cs = ch CHR '']'' # ds" "v = JArray []" "r = ds"
  | (Arr) cs d ds where "s = ch CHR ''['' # cs" "skip_ws cs = d # ds" "d \<noteq> ch CHR '']''"
      "parse_elements n [] (d # ds) = Parsed v r"
  | (Str) cs t where "s = 0x22 # cs" "parse_chars [] cs = Parsed t r" "v = JString t"
  | (Lit) "parse_literal s = Parsed v r"
proof (cases s)
  case Nil
  with assms show ?thesis by simp
next
  case (Cons c cs)
  show ?thesis
  proof (cases "c = ch CHR ''{''")
    case True
    with assms Cons show ?thesis
      by (cases "skip_ws cs") (auto split: if_splits intro: Obj0 Obj)
  next
    case nb: False
    show ?thesis
    proof (cases "c = ch CHR ''[''")
      case True
      with nb assms Cons show ?thesis
        by (cases "skip_ws cs") (auto split: if_splits intro: Arr0 Arr)
    next
      case na: False
      show ?thesis
      proof (cases "c = 0x22")
        case True
        with nb na assms Cons show ?thesis
          by (cases "parse_chars [] cs") (auto intro: Str)
      next
        case False
        with nb na assms Cons have "parse_literal s = Parsed v r" by simp
        then show ?thesis by (rule Lit)
      qed
    qed
  qed
qed

lemma parse_elements_SucE:
  assumes "parse_elements (Suc n) acc s = Parsed v r"
  obtains (More) v1 r1 ds where "parse_value n s = Parsed v1 r1" "skip_ws r1 = ch CHR '','' # ds"
      "parse_elements n (acc @ [v1]) (skip_ws ds) = Parsed v r"
  | (Last) v1 r1 where "parse_value n s = Parsed v1 r1" "skip_ws r1 = ch CHR '']'' # r"
      "v = JArray (acc @ [v1])"
  using assms
  by (simp split: if_splits list.splits parsed.splits)

lemma parse_members_SucE:
  assumes "parse_members (Suc n) acc s = Parsed v r"
  obtains (More) s1 k s2 s3 v1 r1 ds where "s = 0x22 # s1" "parse_chars [] s1 = Parsed k s2"
      "skip_ws s2 = ch CHR '':'' # s3" "parse_value n (skip_ws s3) = Parsed v1 r1"
      "skip_ws r1 = ch CHR '','' # ds"
      "parse_members n (set_property acc k v1) (skip_ws ds) = Parsed v r"
  | (Last) s1 k s2 s3 v1 r1 where "s = 0x22 # s1" "parse_chars [] s1 = Parsed k s2"
      "skip_ws s2 = ch CHR '':'' # s3" "parse_value n (skip_ws s3) = Parsed v1 r1"
      "skip_ws r1 = ch CHR ''}'' # r" "v = JObject (set_property acc k v1)"
  using assms
  by (simp split: if_splits list.splits parsed.splits)

lemma ch_neq [simp]:
  "ch CHR '','' \<noteq> ch CHR ''}''" "ch CHR '','' \<noteq> ch CHR '']''"
  "ch CHR ''{'' \<noteq> ch CHR ''}''" "ch CHR ''}'' \<noteq> ch CHR ''{''"
  by (simp_all add: ch_def)

lemma skip_ws_eqD: "skip_ws s = t \<Longrightarrow> \<exists>w. s = w @ t"
  using skip_ws_split [of s] by auto

lemma braces_shape:
  assumes "s = ch CHR ''{'' # m @ ch CHR ''}'' # r"
  shows "(\<exists>m. s = m @ r \<and> m \<noteq> []) \<and>
      (\<forall>kvs. v = JObject kvs \<longrightarrow> (\<exists>m. s = ch CHR ''{'' # m @ ch CHR ''}'' # r))"
proof -
  from assms have "s = (ch CHR ''{'' # m @ [ch CHR ''}'']) @ r" by simp
  moreover have "ch CHR ''{'' # m @ [ch CHR ''}''] \<noteq> []" by simp
  ultimately have "\<exists>m. s = m @ r \<and> m \<noteq> []" by blast
  with assms show ?thesis by blast
qed

lemma parse_rest:
  "(\<forall>s v r. parse_value n s = Parsed v r \<longrightarrow>
      (\<exists>m. s = m @ r \<and> m \<noteq> []) \<and>
      (\<forall>kvs. v = JObject kvs \<longrightarrow> (\<exists>m. s = ch CHR ''{'' # m @ ch CHR ''}'' # r)))
   \<and> (\<forall>acc s v r. parse_elements n acc s = Parsed v r \<longrightarrow>
      (\<exists>m. s = m @ r \<and> m \<noteq> []) \<and> (\<forall>kvs. v \<noteq> JObject kvs))
   \<and> (\<forall>acc s v r. parse_members n acc s = Parsed v r \<longrightarrow>
      (\<exists>m. s = m @ ch CHR ''}'' # r))"
proof (induction n)
  case 0
  show ?case by simp
next
  case (Suc n)
  then have IHv: "\<And>s v r. parse_value n s = Parsed v r \<Longrightarrow> \<exists>m. s = m @ r \<and> m \<noteq> []"
    and IHe: "\<And>acc s v r. parse_elements n acc s = Parsed v r \<Longrightarrow>
                (\<exists>m. s = m @ r \<and> m \<noteq> []) \<and> (\<forall>kvs. v \<noteq> JObject kvs)"
    and IHm: "\<And>acc s v r. parse_members n acc s = Parsed v r \<Longrightarrow> \<exists>m. s = m @ ch CHR ''}'' # r"
    by blast+
  have V: "(\<exists>m. s = m @ r \<and> m \<noteq> []) \<and>
      (\<forall>kvs. v = JObject kvs \<longrightarrow> (\<exists>m. s = ch CHR ''{'' # m @ ch CHR ''}'' # r))"
    if h: "parse_value (Suc n) s = Parsed v r" for s v r
    using h
  proof (cases rule: parse_value_SucE)
    case (Obj0 cs ds)
    from skip_ws_eqD [OF Obj0(2)] obtain w where "cs = w @ ch CHR ''}'' # ds" ..
    with Obj0 have "s = ch CHR ''{'' # w @ ch CHR ''}'' # r" by simp
    then show ?thesis by (rule braces_shape)
  next
    case (Obj cs d ds)
    from IHm [OF Obj(4)] obtain m where 1: "d # ds = m @ ch CHR ''}'' # r" ..
    from skip_ws_eqD [OF Obj(2)] obtain w where "cs = w @ d # ds" ..
    with 1 Obj(1) have "s = ch CHR ''{'' # (w @ m) @ ch CHR ''}'' # r" by simp
    then show ?thesis by (rule braces_shape)
  next
    case (Arr0 cs ds)
    from skip_ws_eqD [OF Arr0(2)] obtain w where "cs = w @ ch CHR '']'' # ds" ..
    with Arr0 have "s = (ch CHR ''['' # w @ [ch CHR '']'']) @ r" by simp
    moreover have "ch CHR ''['' # w @ [ch CHR '']''] \<noteq> []" by simp
    ultimately have "\<exists>m. s = m @ r \<and> m \<noteq> []" by blast
    with Arr0(3) show ?thesis by simp
  next
    case (Arr cs d ds)
    from IHe [OF Arr(4)] obtain m where 1: "d # ds = m @ r" and no: "\<forall>kvs. v \<noteq> JObject kvs" by blast
    from skip_ws_eqD [OF Arr(2)] obtain w where "cs = w @ d # ds" ..
    with 1 Arr(1) have "s = (ch CHR ''['' # w @ m) @ r" by simp
    moreover have "ch CHR ''['' # w @ m \<noteq> []" by simp
    ultimately have "\<exists>m. s = m @ r \<and> m \<noteq> []" by blast
    with no show ?thesis by simp
  next
    case (Str cs t)
    from parse_chars_rest [OF Str(2)] obtain m where "cs = m @ 0x22 # r" ..
    with Str have "s = (0x22 # m @ [0x22]) @ r" by simp
    moreover have "0x22 # m @ [0x22] \<noteq> ([]::jsstring)" by simp
    ultimately have "\<exists>m. s = m @ r \<and> m \<noteq> []" by blast
    with Str(3) show ?thesis by simp
  next
    case Lit
    from parse_literal_rest [OF Lit] show ?thesis by blast
  qed
  have E: "(\<exists>m. s = m @ r \<and> m \<noteq> []) \<and> (\<forall>kvs. v \<noteq> JObject kvs)"
    if h: "parse_elements (Suc n) acc s = Parsed v r" for acc s v r
    using h
  proof (cases rule: parse_elements_SucE)
    case (More v1 r1 ds)
    from IHv [OF More(1)] obtain m1 where 1: "s = m1 @ r1" "m1 \<noteq> []" by blast
    from skip_ws_eqD [OF More(2)] obtain w where 2: "r1 = w @ ch CHR '','' # ds" ..
    from IHe [OF More(3)] obtain m2 where 4: "skip_ws ds = m2 @ r" and no: "\<forall>kvs. v \<noteq> JObject kvs" by blast
    from skip_ws_eqD [OF 4] obtain w2 where 3: "ds = w2 @ m2 @ r" ..
    from 1 2 3 have "s = (m1 @ w @ ch CHR '','' # w2 @ m2) @ r" by simp
    moreover from 1 have "m1 @ w @ ch CHR '','' # w2 @ m2 \<noteq> []" by simp
    ultimately have "\<exists>m. s = m @ r \<and> m \<noteq> []" by blast
    with no show ?thesis by simp
  next
    case (Last v1 r1)
    from IHv [OF Last(1)] obtain m1 where 1: "s = m1 @ r1" "m1 \<noteq> []" by blast
    from skip_ws_eqD [OF Last(2)] obtain w where 2: "r1 = w @ ch CHR '']'' # r" ..
    from 1 2 have "s = (m1 @ w @ [ch CHR '']'']) @ r" by simp
    moreover from 1 have "m1 @ w @ [ch CHR '']''] \<noteq> []" by simp
    ultimately have "\<exists>m. s = m @ r \<and> m \<noteq> []" by blast
    with Last(3) show ?thesis by simp
  qed
  have M: "\<exists>m. s = m @ ch CHR ''}'' # r"
    if h: "parse_members (Suc n) acc s = Parsed v r" for acc s v r
    using h
  proof (cases rule: parse_members_SucE)
    case (More s1 k s2 s3 v1 r1 ds)
    from parse_chars_rest [OF More(2)] obtain a where 1: "s1 = a @ 0x22 # s2" ..
    from skip_ws_eqD [OF More(3)] obtain w1 where 2: "s2 = w1 @ ch CHR '':'' # s3" ..
    from IHv [OF More(4)] obtain m1 where 4: "skip_ws s3 = m1 @ r1" by blast
    from skip_ws_eqD [OF 4] obtain w2 where 3: "s3 = w2 @ m1 @ r1" ..
    from skip_ws_eqD [OF More(5)] obtain w3 where 5: "r1 = w3 @ ch CHR '','' # ds" ..
    from IHm [OF More(6)] obtain m2 where 7: "skip_ws ds = m2 @ ch CHR ''}'' # r" ..
    from skip_ws_eqD [OF 7] obtain w4 where 6: "ds = w4 @ m2 @ ch CHR ''}'' # r" ..
    have "s = (0x22 # a @ 0x22 # w1 @ ch CHR '':'' # w2 @ m1 @ w3 @ ch CHR '','' # w4 @ m2) @ ch CHR ''}'' # r"
      using More(1) 1 2 3 5 6 by simp
    then show ?thesis by blast
  next
    case (Last s1 k s2 s3 v1 r1)
    from parse_chars_rest [OF Last(2)] obtain a where 1: "s1 = a @ 0x22 # s2" ..
    from skip_ws_eqD [OF Last(3)] obtain w1 where 2: "s2 = w1 @ ch CHR '':'' # s3" ..
    from IHv [OF Last(4)] obtain m1 where 4: "skip_ws s3 = m1 @ r1" by blast
    from skip_ws_eqD [OF 4] obtain w2 where 3: "s3 = w2 @ m1 @ r1" ..
    from skip_ws_eqD [OF Last(5)] obtain w3 where 5: "r1 = w3 @ ch CHR ''}'' # r" ..
    have "s = (0x22 # a @ 0x22 # w1 @ ch CHR '':'' # w2 @ m1 @ w3) @ ch CHR ''}'' # r"
      using Last(1) 1 2 3 5 by simp
    then show ?thesis by blast
  qed
  from V E M show ?case by blast
qed

lemma parse_value_Suc_fuelE:
  assumes "parse_value (Suc n) s = OutOfFuel"
  obtains (Obj) cs d ds where "s = ch CHR ''{'' # cs" "skip_ws cs = d # ds"
      "parse_members n [] (d # ds) = OutOfFuel"
  | (Arr) cs d ds where "s = ch CHR ''['' # cs" "skip_ws cs = d # ds"
      "parse_elements n [] (d # ds) = OutOfFuel"
proof (cases s)
  case Nil
  with assms show ?thesis by simp
next
  case (Cons c cs)
  show ?thesis
  proof (cases "c = ch CHR ''{''")
    case True
    with assms Cons show ?thesis
      by (cases "skip_ws cs") (auto split: if_splits intro: Obj)
  next
    case nb: False
    show ?thesis
    proof (cases "c = ch CHR ''[''")
      case True
      with nb assms Cons show ?thesis
        by (cases "skip_ws cs") (auto split: if_splits intro: Arr)
    next
      case na: False
      show ?thesis
      proof (cases "c = 0x22")
        case True
        with nb na assms Cons parse_chars_fuel [of "[]" cs] show ?thesis
          by (cases "parse_chars [] cs") auto
      next
        case False
        with nb na assms Cons parse_literal_fuel [of s] show ?thesis by simp
      qed
    qed
  qed
qed

lemma parse_elements_Suc_fuelE:
  assumes "parse_elements (Suc n) acc s = OutOfFuel"
  obtains (Val) "parse_value n s = OutOfFuel"
  | (More) v1 r1 ds where "parse_value n s = Parsed v1 r1" "skip_ws r1 = ch CHR '','' # ds"
      "parse_elements n (acc @ [v1]) (skip_ws ds) = OutOfFuel"
  using assms
  by (simp split: if_splits list.splits parsed.splits)

lemma parse_members_Suc_fuelE:
  assumes "parse_members (Suc n) acc s = OutOfFuel"
  obtains (Val) s1 k s2 s3 where "s = 0x22 # s1" "parse_chars [] s1 = Parsed k s2"
      "skip_ws s2 = ch CHR '':'' # s3" "parse_value n (skip_ws s3) = OutOfFuel"
  | (More) s1 k s2 s3 v1 r1 ds where "s = 0x22 # s1" "parse_chars [] s1 = Parsed k s2"
      "skip_ws s2 = ch CHR '':'' # s3" "parse_value n (skip_ws s3) = Parsed v1 r1"
      "skip_ws r1 = ch CHR '','' # ds"
      "parse_members n (set_property acc k v1) (skip_ws ds) = OutOfFuel"
  using assms parse_chars_fuel
  by (simp split: if_splits list.splits parsed.splits)

lemma skip_ws_ConsD: "skip_ws s = d # ds \<Longrightarrow> length ds < length s"
  using skip_ws_length [of s] by simp

lemma parse_value_shorter: "parse_value n s = Parsed v r \<Longrightarrow> length r < length s"
  using parse_rest [of n] by fastforce

lemma parse_chars_shorter: "parse_chars acc s = Parsed t r \<Longrightarrow> length r < length s"
  using parse_chars_rest [of acc s t r] by auto

lemma parse_fuel:
  "(\<forall>s. 2 * length s < n \<longrightarrow> parse_value n s \<noteq> OutOfFuel)
   \<and> (\<forall>acc s. 2 * length s + 1 < n \<longrightarrow> parse_elements n acc s \<noteq> OutOfFuel)
   \<and> (\<forall>acc s. 2 * length s < n \<longrightarrow> parse_members n acc s \<noteq> OutOfFuel)"
proof (induction n)
  case 0
  show ?case by simp
next
  case (Suc n)
  then have IHv: "\<And>s. 2 * length s < n \<Longrightarrow> parse_value n s \<noteq> OutOfFuel"
    and IHe: "\<And>acc s. 2 * length s + 1 < n \<Longrightarrow> parse_elements n acc s \<noteq> OutOfFuel"
    and IHm: "\<And>acc s. 2 * length s < n \<Longrightarrow> parse_members n acc s \<noteq> OutOfFuel"
    by blast+
  have V: "parse_value (Suc n) s \<noteq> OutOfFuel" if b: "2 * length s < Suc n" for s
  proof
    assume "parse_value (Suc n) s = OutOfFuel"
    then show False
    proof (cases rule: parse_value_Suc_fuelE)
      case (Obj cs d ds)
      from skip_ws_ConsD [OF Obj(2)] Obj(1) b have "2 * length (d # ds) < n" by simp
      from IHm [OF this] Obj(3) show False by simp
    next
      case (Arr cs d ds)
      from skip_ws_ConsD [OF Arr(2)] Arr(1) b have "2 * length (d # ds) + 1 < n" by simp
      from IHe [OF this] Arr(3) show False by simp
    qed
  qed
  have E: "parse_elements (Suc n) acc s \<noteq> OutOfFuel" if b: "2 * length s + 1 < Suc n" for acc s
  proof
    assume "parse_elements (Suc n) acc s = OutOfFuel"
    then show False
    proof (cases rule: parse_elements_Suc_fuelE)
      case Val
      from b have "2 * length s < n" by simp
      from IHv [OF this] Val show False by simp
    next
      case (More v1 r1 ds)
      from parse_value_shorter [OF More(1)] skip_ws_ConsD [OF More(2)] skip_ws_length [of ds] b
      have "2 * length (skip_ws ds) + 1 < n" by simp
      from IHe [OF this] More(3) show False by simp
    qed
  qed
  have M: "parse_members (Suc n) acc s \<noteq> OutOfFuel" if b: "2 * length s < Suc n" for acc s
  proof
    assume "parse_members (Suc n) acc s = OutOfFuel"
    then show False
    proof (cases rule: parse_members_Suc_fuelE)
      case (Val s1 k s2 s3)
      from parse_chars_shorter [OF Val(2)] skip_ws_ConsD [OF Val(3)] skip_ws_length [of s3] Val(1) b
      have "2 * length (skip_ws s3) < n" by simp
      from IHv [OF this] Val(4) show False by simp
    next
      case (More s1 k s2 s3 v1 r1 ds)
      from parse_chars_shorter [OF More(2)] skip_ws_ConsD [OF More(3)] skip_ws_length [of s3]
        parse_value_shorter [OF More(4)] skip_ws_ConsD [OF More(5)] skip_ws_length [of ds] More(1) b
      have "2 * length (skip_ws ds) < n" by simp
      from IHm [OF this] More(6) show False by simp
    qed
  qed
  from V E M show ?case by blast
qed

lemma JSON_parse_fuel:
  "parse_value (Suc (2 * length s)) (skip_ws s) \<noteq> OutOfFuel"
proof -
  from skip_ws_length [of s] have "2 * length (skip_ws s) < Suc (2 * length s)" by simp
  with parse_fuel [of "Suc (2 * length s)"] show ?thesis by blast
qed

lemma skip_ws_Nil: "skip_ws r = [] \<Longrightarrow> \<forall>c\<in>set r. json_ws c"
  unfolding skip_ws_def by (simp add: dropWhile_eq_Nil_conv)

lemma JSON_parse_object_shape:
  assumes "JSON_parse s = Some (JObject kvs)"
  shows "\<exists>a m b. s = a @ ch CHR ''{'' # m @ ch CHR ''}'' # b
           \<and> (\<forall>c\<in>set a. json_ws c) \<and> (\<forall>c\<in>set b. json_ws c)"
proof -
  from assms obtain r where p: "parse_value (Suc (2 * length s)) (skip_ws s) = Parsed (JObject kvs) r"
    and r: "skip_ws r = []"
    unfolding JSON_parse_def by (auto split: parsed.splits if_splits)
  from parse_rest [of "Suc (2 * length s)"] p
  obtain m where m: "skip_ws s = ch CHR ''{'' # m @ ch CHR ''}'' # r" by blast
  from skip_ws_split [of s] obtain a where "s = a @ skip_ws s" "\<forall>c\<in>set a. json_ws c" by blast
  with m have "s = a @ ch CHR ''{'' # m @ ch CHR ''}'' # r" by simp
  with \<open>\<forall>c\<in>set a. json_ws c\<close> skip_ws_Nil [OF r] show ?thesis by blast
qed

section \<open>Properties of the string operations\<close>

lemma is_ws_not_brace: "is_ws c \<Longrightarrow> c \<noteq> ch CHR ''{'' \<and> c \<noteq> ch CHR ''}''"
  by (auto simp: is_ws_def ch_def)

lemma json_ws_is_ws: "json_ws c \<Longrightarrow> is_ws c"
  by (auto simp: json_ws_def is_ws_def)

lemma brace_not_ws [simp]: "\<not> is_ws (ch CHR ''{'')" "\<not> is_ws (ch CHR ''}'')"
  using is_ws_not_brace by blast+

lemma fence_no_brace: "ch CHR ''{'' \<notin> set fence" "ch CHR ''}'' \<notin> set fence"
  by (simp_all add: fence_def ch_def)

lemma ascii_lower_brace:
  "ascii_lower c \<in> set (str ''json'') \<Longrightarrow> c \<noteq> ch CHR ''{'' \<and> c \<noteq> ch CHR ''}''"
  by (auto simp: ascii_lower_def str_def ch_def split: if_splits)

lemma json_tag_no_brace:
  assumes "map ascii_lower t = str ''json''"
  shows "ch CHR ''{'' \<notin> set t \<and> ch CHR ''}'' \<notin> set t"
proof -
  have "\<forall>c\<in>set t. ascii_lower c \<in> set (str ''json'')"
    using assms by (metis imageI set_map)
  with ascii_lower_brace show ?thesis by blast
qed

lemma rev_dropWhile_split:
  "u = rev (dropWhile P (rev u)) @ rev (takeWhile P (rev u))"
proof -
  have "rev (rev u) = rev (takeWhile P (rev u) @ dropWhile P (rev u))"
    by (simp only: takeWhile_dropWhile_id)
  then show ?thesis by (simp only: rev_rev_ident rev_append)
qed

lemma strip_opening_fence_split:
  "\<exists>a. raw = a @ strip_opening_fence raw \<and> ch CHR ''{'' \<notin> set a \<and> ch CHR ''}'' \<notin> set a"
proof (cases "take 3 raw = fence")
  case False
  then have "raw = [] @ strip_opening_fence raw" by (simp add: strip_opening_fence_def)
  moreover have "ch CHR ''{'' \<notin> set ([]::jsstring) \<and> ch CHR ''}'' \<notin> set ([]::jsstring)" by simp
  ultimately show ?thesis by blast
next
  case True
  define r where "r = drop 3 raw"
  define t where "t = (if map ascii_lower (take 4 r) = str ''json'' then take 4 r else [])"
  define r' where "r' = (if map ascii_lower (take 4 r) = str ''json'' then drop 4 r else r)"
  define w where "w = takeWhile is_ws r'"
  have 1: "raw = fence @ r" using True append_take_drop_id [of 3 raw] by (simp add: r_def)
  have 2: "r = t @ r'" by (simp add: t_def r'_def)
  have s: "strip_opening_fence raw = dropWhile is_ws r'"
    using True by (simp add: strip_opening_fence_def r_def r'_def Let_def)
  have 3: "r' = w @ strip_opening_fence raw" by (simp add: w_def s)
  have t: "ch CHR ''{'' \<notin> set t \<and> ch CHR ''}'' \<notin> set t"
    using json_tag_no_brace [of "take 4 r"] by (simp add: t_def)
  have w: "ch CHR ''{'' \<notin> set w \<and> ch CHR ''}'' \<notin> set w"
    unfolding w_def using brace_not_ws set_takeWhileD by metis
  have "fence @ t @ r' = (fence @ t @ w) @ strip_opening_fence raw"
    using 3 by simp
  then have "raw = (fence @ t @ w) @ strip_opening_fence raw"
    by (simp only: 1 2)
  moreover have "ch CHR ''{'' \<notin> set (fence @ t @ w) \<and> ch CHR ''}'' \<notin> set (fence @ t @ w)"
    using t w fence_no_brace by simp
  ultimately show ?thesis by blast
qed

lemma closing_fence_here_units:
  assumes "closing_fence_here s"
  shows "\<forall>c\<in>set s. is_ws c \<or> c = 0x60"
proof -
  define r where "r = dropWhile is_ws s"
  from assms have f: "take 3 r = fence" and e: "dropWhile is_ws (drop 3 r) = []"
    unfolding closing_fence_here_def Let_def r_def by blast+
  have "s = takeWhile is_ws s @ r" by (simp add: r_def)
  moreover have "r = fence @ drop 3 r" using f append_take_drop_id [of 3 r] by simp
  ultimately have "s = takeWhile is_ws s @ fence @ drop 3 r" by simp
  then have "set s = set (takeWhile is_ws s @ fence @ drop 3 r)" by simp
  then have "set s = set (takeWhile is_ws s) \<union> set fence \<union> set (drop 3 r)"
    by (simp only: set_append Un_assoc)
  moreover have "\<forall>c\<in>set (takeWhile is_ws s). is_ws c" using set_takeWhileD by metis
  moreover have "\<forall>c\<in>set (drop 3 r). is_ws c" using e by (simp add: dropWhile_eq_Nil_conv)
  moreover have "\<forall>c\<in>set fence. c = 0x60" by (simp add: fence_def)
  ultimately show ?thesis by blast
qed

lemma strip_closing_fence_split:
  "\<exists>b. s = strip_closing_fence s @ b \<and> (\<forall>c\<in>set b. is_ws c \<or> c = 0x60)"
proof (induction s)
  case Nil
  show ?case by simp
next
  case (Cons c cs)
  show ?case
  proof (cases "closing_fence_here (c # cs)")
    case True
    with closing_fence_here_units [OF True] show ?thesis by simp
  next
    case False
    with Cons show ?thesis by auto
  qed
qed

lemma trim_split:
  "\<exists>a b. s = a @ trim s @ b \<and> (\<forall>c\<in>set a. is_ws c) \<and> (\<forall>c\<in>set b. is_ws c)"
proof -
  define t where "t = dropWhile is_ws s"
  define a where "a = takeWhile is_ws s"
  define b where "b = rev (takeWhile is_ws (rev t))"
  have 1: "s = a @ t" by (simp add: t_def a_def)
  have 2: "t = trim s @ b"
    using rev_dropWhile_split [of t is_ws] by (simp add: trim_def t_def b_def)
  have "a @ t = a @ trim s @ b" using 2 by simp
  then have "s = a @ trim s @ b" by (simp only: 1 [symmetric])
  moreover have "\<forall>c\<in>set a. is_ws c" unfolding a_def using set_takeWhileD by metis
  moreover have "\<forall>c\<in>set b. is_ws c" unfolding b_def set_rev using set_takeWhileD by metis
  ultimately show ?thesis by blast
qed

lemma dropWhile_hd: "dropWhile P xs = y # ys \<Longrightarrow> \<not> P y"
  using hd_dropWhile [of P xs] by auto

lemma trim_hd:
  assumes "trim s = c # t"
  shows "\<not> is_ws c"
proof -
  define u where "u = dropWhile is_ws s"
  have "u = trim s @ rev (takeWhile is_ws (rev u))"
    using rev_dropWhile_split [of u is_ws] by (simp add: trim_def u_def)
  with assms have "dropWhile is_ws s = c # (t @ rev (takeWhile is_ws (rev u)))"
    by (simp add: u_def)
  then show ?thesis by (rule dropWhile_hd)
qed

lemma trim_last:
  assumes "trim s = t @ [c]"
  shows "\<not> is_ws c"
proof -
  have "rev (trim s) = c # rev t" using assms by simp
  then have "dropWhile is_ws (rev (dropWhile is_ws s)) = c # rev t" by (simp add: trim_def)
  then show ?thesis by (rule dropWhile_hd)
qed

lemma fenceStripped_split:
  "\<exists>a b. raw = a @ fenceStripped raw @ b \<and> ch CHR ''{'' \<notin> set a \<and> ch CHR ''}'' \<notin> set b"
proof -
  from strip_opening_fence_split [of raw] obtain a1 where
    1: "raw = a1 @ strip_opening_fence raw" and a1: "ch CHR ''{'' \<notin> set a1" by blast
  from strip_closing_fence_split [of "strip_opening_fence raw"] obtain b1 where
    2: "strip_opening_fence raw = strip_closing_fence (strip_opening_fence raw) @ b1"
    and b1: "\<forall>c\<in>set b1. is_ws c \<or> c = 0x60" by blast
  from trim_split [of "strip_closing_fence (strip_opening_fence raw)"] obtain a2 b2 where
    3: "strip_closing_fence (strip_opening_fence raw) = a2 @ fenceStripped raw @ b2"
    and a2: "\<forall>c\<in>set a2. is_ws c" and b2: "\<forall>c\<in>set b2. is_ws c"
    unfolding fenceStripped_def by blast
  have "a1 @ strip_opening_fence raw = (a1 @ a2) @ fenceStripped raw @ (b2 @ b1)"
    using 2 3 by simp
  then have "raw = (a1 @ a2) @ fenceStripped raw @ (b2 @ b1)"
    by (simp only: 1 [symmetric])
  moreover have "ch CHR ''{'' \<notin> set (a1 @ a2)" using a1 a2 brace_not_ws by auto
  moreover have "ch CHR ''}'' \<notin> set (b2 @ b1)"
  proof -
    have "ch CHR ''}'' \<noteq> (0x60 :: unit16)" by (simp add: ch_def)
    with b1 b2 brace_not_ws show ?thesis by auto
  qed
  ultimately show ?thesis by blast
qed

lemma fenceStripped_object:
  assumes "JSON_parse (fenceStripped raw) = Some (JObject kvs)"
  shows "\<exists>m. fenceStripped raw = ch CHR ''{'' # m @ [ch CHR ''}'']"
proof -
  from JSON_parse_object_shape [OF assms] obtain a m b where
    s: "fenceStripped raw = a @ ch CHR ''{'' # m @ ch CHR ''}'' # b"
    and a: "\<forall>c\<in>set a. json_ws c" and b: "\<forall>c\<in>set b. json_ws c" by blast
  have "a = []"
  proof (cases a)
    case (Cons x xs)
    with s have "trim (strip_closing_fence (strip_opening_fence raw)) = x # (xs @ ch CHR ''{'' # m @ ch CHR ''}'' # b)"
      by (simp add: fenceStripped_def)
    from trim_hd [OF this] a Cons json_ws_is_ws show ?thesis by auto
  qed simp
  moreover have "b = []"
  proof (cases b rule: rev_cases)
    case (snoc ys y)
    with s have "trim (strip_closing_fence (strip_opening_fence raw)) = (a @ ch CHR ''{'' # m @ ch CHR ''}'' # ys) @ [y]"
      by (simp add: fenceStripped_def)
    from trim_last [OF this] b snoc json_ws_is_ws show ?thesis by auto
  qed simp
  ultimately show ?thesis using s by simp
qed

lemma indexOf_absent: "c \<notin> set s \<Longrightarrow> indexOf s c = -1"
  by (induction s) (auto simp: Let_def)

lemma indexOf_ge: "-1 \<le> indexOf s c"
  by (induction s) (auto simp: Let_def)

lemma indexOf_first: "c \<notin> set a \<Longrightarrow> indexOf (a @ c # t) c = int (length a)"
  by (induction a) (auto simp: Let_def)

lemma indexOf_present: "c \<in> set s \<Longrightarrow> indexOf s c \<noteq> -1"
proof -
  assume "c \<in> set s"
  then obtain a t where "s = a @ c # t" "c \<notin> set a" by (meson split_list_first)
  with indexOf_first [of c a t] show ?thesis by simp
qed

lemma lastIndexOf_absent: "c \<notin> set s \<Longrightarrow> lastIndexOf s c = -1"
  by (induction s) (auto simp: Let_def)

lemma lastIndexOf_last: "c \<notin> set b \<Longrightarrow> lastIndexOf (t @ c # b) c = int (length t)"
  by (induction t) (auto simp: Let_def lastIndexOf_absent)

lemma slice_middle:
  "slice_str (a @ m @ b) (int (length a)) (int (length a) + int (length m)) = m"
  by (simp add: slice_str_def slice_index_def)

lemma first_unique:
  assumes "a @ c # t = a' @ c # t'" "c \<notin> set (a::jsstring)" "c \<notin> set a'"
  shows "a = a' \<and> t = t'"
proof -
  have "int (length a) = int (length a')"
    using indexOf_first [OF assms(2), of t] indexOf_first [OF assms(3), of t'] assms(1) by simp
  with assms(1) show ?thesis by simp
qed

lemma last_unique:
  assumes "t @ c # b = t' @ c # b'" "c \<notin> set (b::jsstring)" "c \<notin> set b'"
  shows "t = t' \<and> b = b'"
proof -
  have "int (length t) = int (length t')"
    using lastIndexOf_last [OF assms(2), of t] lastIndexOf_last [OF assms(3), of t'] assms(1) by simp
  with assms(1) show ?thesis by simp
qed

lemma span_unique:
  assumes "a @ ch CHR ''{'' # m @ ch CHR ''}'' # b = a' @ ch CHR ''{'' # m' @ ch CHR ''}'' # b'"
    and "ch CHR ''{'' \<notin> set a" "ch CHR ''{'' \<notin> set a'"
    and "ch CHR ''}'' \<notin> set b" "ch CHR ''}'' \<notin> set b'"
  shows "m = m'"
proof -
  from first_unique [OF assms(1) assms(2) assms(3)]
  have "m @ ch CHR ''}'' # b = m' @ ch CHR ''}'' # b'" by simp
  from last_unique [OF this assms(4) assms(5)] show ?thesis by simp
qed

lemma greedy_to_rbrace_last:
  assumes "ch CHR ''}'' \<notin> set b"
  shows "greedy_to_rbrace (m @ ch CHR ''}'' # b) = Some (m @ [ch CHR ''}''])"
proof -
  have "dropWhile (\<lambda>x. x \<noteq> ch CHR ''}'') (rev b @ ch CHR ''}'' # rev m) = ch CHR ''}'' # rev m"
    using assms by (simp add: dropWhile_append)
  then show ?thesis by (simp add: greedy_to_rbrace_def)
qed

lemma regexMatch_span:
  assumes "ch CHR ''{'' \<notin> set a" "ch CHR ''}'' \<notin> set b"
  shows "regexMatch (a @ ch CHR ''{'' # m @ ch CHR ''}'' # b) = Some (ch CHR ''{'' # m @ [ch CHR ''}''])"
  using assms(1)
proof (induction a)
  case Nil
  show ?case using greedy_to_rbrace_last [OF assms(2), of m] by simp
next
  case (Cons x a)
  then show ?case by auto
qed

text \<open>A text has a brace span when an opening brace comes before a closing brace.\<close>

lemma span_normal:
  assumes "raw = x @ ch CHR ''{'' # y @ ch CHR ''}'' # z"
  shows "\<exists>a m b. raw = a @ ch CHR ''{'' # m @ ch CHR ''}'' # b
           \<and> ch CHR ''{'' \<notin> set a \<and> ch CHR ''}'' \<notin> set b"
proof -
  have "ch CHR ''{'' \<in> set raw" using assms by simp
  then obtain a t where 1: "raw = a @ ch CHR ''{'' # t" and a: "ch CHR ''{'' \<notin> set a"
    by (meson split_list_first)
  have "length a \<le> length x"
  proof (rule ccontr)
    assume "\<not> length a \<le> length x"
    then have "length x < length a" by simp
    moreover have "raw ! length x = ch CHR ''{''" using assms by (simp add: nth_append)
    moreover have "raw ! length x = a ! length x" using 1 \<open>length x < length a\<close> by (simp add: nth_append)
    ultimately show False using a by (metis nth_mem)
  qed
  then obtain x' where x: "x = a @ x'"
    using 1 assms by (metis append_eq_append_conv_if append_take_drop_id)
  with 1 assms have t: "ch CHR ''{'' # t = x' @ ch CHR ''{'' # y @ ch CHR ''}'' # z" by simp
  then have "ch CHR ''}'' \<in> set t" by (cases x') auto
  then obtain m b where 2: "t = m @ ch CHR ''}'' # b" and b: "ch CHR ''}'' \<notin> set b"
    by (meson split_list_last)
  from 1 2 a b show ?thesis by blast
qed

lemma regexMatch_no_span:
  assumes "\<forall>x y z. raw \<noteq> x @ ch CHR ''{'' # y @ ch CHR ''}'' # z"
  shows "regexMatch raw = None"
  using assms
proof (induction raw)
  case Nil
  show ?case by simp
next
  case (Cons c cs)
  have "\<forall>x y z. cs \<noteq> x @ ch CHR ''{'' # y @ ch CHR ''}'' # z"
  proof (intro allI notI)
    fix x y z assume "cs = x @ ch CHR ''{'' # y @ ch CHR ''}'' # z"
    then have "c # cs = (c # x) @ ch CHR ''{'' # y @ ch CHR ''}'' # z" by simp
    with Cons.prems show False by blast
  qed
  with Cons.IH have r: "regexMatch cs = None" by blast
  show ?case
  proof (cases "c = ch CHR ''{''")
    case False
    with r show ?thesis by simp
  next
    case True
    have "ch CHR ''}'' \<notin> set cs"
    proof
      assume "ch CHR ''}'' \<in> set cs"
      then obtain y z where "cs = y @ ch CHR ''}'' # z" by (meson split_list)
      with True have "c # cs = [] @ ch CHR ''{'' # y @ ch CHR ''}'' # z" by simp
      with Cons.prems show False by blast
    qed
    then have "greedy_to_rbrace cs = None" by (simp add: greedy_to_rbrace_def)
    with True r show ?thesis by simp
  qed
qed

lemma brace_test_span:
  assumes "ch CHR ''{'' \<notin> set a" "ch CHR ''}'' \<notin> set b"
    and "raw = a @ ch CHR ''{'' # m @ ch CHR ''}'' # b"
  shows "indexOf raw (ch CHR ''{'') = int (length a)"
    and "lastIndexOf raw (ch CHR ''}'') = int (length a) + 1 + int (length m)"
    and "slice_str raw (int (length a)) (int (length a) + 1 + int (length m) + 1) = ch CHR ''{'' # m @ [ch CHR ''}'']"
proof -
  show "indexOf raw (ch CHR ''{'') = int (length a)"
    using indexOf_first [OF assms(1)] assms(3) by simp
  have "raw = (a @ ch CHR ''{'' # m) @ ch CHR ''}'' # b" using assms(3) by simp
  then show "lastIndexOf raw (ch CHR ''}'') = int (length a) + 1 + int (length m)"
    using lastIndexOf_last [OF assms(2), of "a @ ch CHR ''{'' # m"] by simp
  have "raw = a @ (ch CHR ''{'' # m @ [ch CHR ''}'']) @ b" using assms(3) by simp
  then show "slice_str raw (int (length a)) (int (length a) + 1 + int (length m) + 1) = ch CHR ''{'' # m @ [ch CHR ''}'']"
    using slice_middle [of a "ch CHR ''{'' # m @ [ch CHR ''}'']" b] by (simp add: add.commute add.left_commute)
qed

lemma brace_test_no_span:
  assumes "\<forall>x y z. raw \<noteq> x @ ch CHR ''{'' # y @ ch CHR ''}'' # z"
  shows "\<not> (indexOf raw (ch CHR ''{'') \<noteq> -1 \<and> lastIndexOf raw (ch CHR ''}'') > indexOf raw (ch CHR ''{''))"
proof
  assume h: "indexOf raw (ch CHR ''{'') \<noteq> -1 \<and> lastIndexOf raw (ch CHR ''}'') > indexOf raw (ch CHR ''{'')"
  then have "ch CHR ''{'' \<in> set raw" using indexOf_absent by blast
  then obtain a t where 1: "raw = a @ ch CHR ''{'' # t" and a: "ch CHR ''{'' \<notin> set a"
    by (meson split_list_first)
  have i: "indexOf raw (ch CHR ''{'') = int (length a)" using indexOf_first [OF a] 1 by simp
  with h indexOf_ge [of raw "ch CHR ''{''"] have "lastIndexOf raw (ch CHR ''}'') \<noteq> -1" by linarith
  then have "ch CHR ''}'' \<in> set raw" using lastIndexOf_absent by blast
  then obtain u b where 2: "raw = u @ ch CHR ''}'' # b" and b: "ch CHR ''}'' \<notin> set b"
    by (meson split_list_last)
  have l: "lastIndexOf raw (ch CHR ''}'') = int (length u)" using lastIndexOf_last [OF b] 2 by simp
  with h i have lt: "length a < length u" by simp
  have "take (length u) raw = u" using 2 by simp
  moreover have "take (length u) raw = a @ take (length u - length a) (ch CHR ''{'' # t)"
    using 1 lt by simp
  moreover from lt obtain k where "length u - length a = Suc k" by (metis Suc_diff_Suc)
  ultimately have "u = a @ ch CHR ''{'' # take k t" by simp
  with 2 have "raw = a @ ch CHR ''{'' # take k t @ ch CHR ''}'' # b" by simp
  with assms show False by blast
qed

lemma accepted_iff:
  "(\<not> falsy obj \<and> typeof obj = ''object'' \<and> \<not> isArray obj) \<longleftrightarrow> (\<exists>kvs. obj = JObject kvs)"
  by (cases obj) auto

section \<open>What \<open>extractJson\<close> returns\<close>

lemma attempts_span:
  assumes "raw = a @ ch CHR ''{'' # m @ ch CHR ''}'' # b"
    and "ch CHR ''{'' \<notin> set a" "ch CHR ''}'' \<notin> set b"
  shows "attempts raw =
     [fenceStripped raw, ch CHR ''{'' # m @ [ch CHR ''}''], ch CHR ''{'' # m @ [ch CHR ''}'']]"
proof -
  note t = brace_test_span [OF assms(2) assms(3) assms(1)]
  have "regexMatch raw = Some (ch CHR ''{'' # m @ [ch CHR ''}''])"
    using regexMatch_span [OF assms(2) assms(3)] assms(1) by simp
  with t show ?thesis by (simp add: attempts_def Let_def)
qed

lemma attempts_no_span:
  assumes "\<forall>x y z. raw \<noteq> x @ ch CHR ''{'' # y @ ch CHR ''}'' # z"
  shows "attempts raw = [fenceStripped raw]"
  using brace_test_no_span [OF assms] regexMatch_no_span [OF assms]
  by (simp add: attempts_def Let_def)

lemma first_object_accepts:
  "first_object cs = Some obj \<Longrightarrow> \<exists>c\<in>set cs. \<exists>kvs. obj = JObject kvs \<and> JSON_parse c = Some obj"
proof (induction cs)
  case Nil
  then show ?case by simp
next
  case (Cons c cs)
  show ?case
  proof (cases "JSON_parse c")
    case None
    with Cons show ?thesis by simp
  next
    case (Some v)
    show ?thesis
    proof (cases "\<exists>kvs. v = JObject kvs")
      case True
      with Some Cons.prems accepted_iff [of v] show ?thesis by auto
    next
      case False
      with Some Cons.prems accepted_iff [of v] have "first_object cs = Some obj" by auto
      with Cons.IH show ?thesis by auto
    qed
  qed
qed

lemma first_object_single:
  "first_object [c] = (case JSON_parse c of Some (JObject kvs) \<Rightarrow> Some (JObject kvs) | _ \<Rightarrow> None)"
  by (simp split: option.splits json.splits)

lemma first_object_twice: "first_object [c, c] = first_object [c]"
  by (simp split: option.splits)

lemma fenceStripped_rejected:
  assumes "\<forall>kvs. JSON_parse (fenceStripped raw) \<noteq> Some (JObject kvs)"
  shows "first_object (fenceStripped raw # cs) = first_object cs"
proof (cases "JSON_parse (fenceStripped raw)")
  case None
  then show ?thesis by simp
next
  case (Some v)
  with assms accepted_iff [of v] show ?thesis by auto
qed

lemma fenceStripped_object_span:
  assumes "JSON_parse (fenceStripped raw) = Some (JObject kvs)"
    and "raw = a @ ch CHR ''{'' # m @ ch CHR ''}'' # b"
    and "ch CHR ''{'' \<notin> set a" "ch CHR ''}'' \<notin> set b"
  shows "fenceStripped raw = ch CHR ''{'' # m @ [ch CHR ''}'']"
proof -
  from fenceStripped_object [OF assms(1)] obtain m' where
    f: "fenceStripped raw = ch CHR ''{'' # m' @ [ch CHR ''}'']" ..
  from fenceStripped_split [of raw] obtain a' b' where
    r: "raw = a' @ fenceStripped raw @ b'" and a': "ch CHR ''{'' \<notin> set a'"
    and b': "ch CHR ''}'' \<notin> set b'" by blast
  from r f have "raw = a' @ ch CHR ''{'' # m' @ ch CHR ''}'' # b'" by simp
  with assms(2) have "a @ ch CHR ''{'' # m @ ch CHR ''}'' # b = a' @ ch CHR ''{'' # m' @ ch CHR ''}'' # b'"
    by simp
  from span_unique [OF this assms(3) a' assms(4) b'] f show ?thesis by simp
qed

lemma extractJson_span:
  assumes "raw = a @ ch CHR ''{'' # m @ ch CHR ''}'' # b"
    and "ch CHR ''{'' \<notin> set a" "ch CHR ''}'' \<notin> set b"
  shows "extractJson raw = first_object [ch CHR ''{'' # m @ [ch CHR ''}'']]"
proof (cases "\<exists>kvs. JSON_parse (fenceStripped raw) = Some (JObject kvs)")
  case True
  then obtain kvs where p: "JSON_parse (fenceStripped raw) = Some (JObject kvs)" ..
  from fenceStripped_object_span [OF p assms]
  have "fenceStripped raw = ch CHR ''{'' # m @ [ch CHR ''}'']" .
  with p show ?thesis by (simp add: extractJson_def attempts_span [OF assms])
next
  case False
  then have "\<forall>kvs. JSON_parse (fenceStripped raw) \<noteq> Some (JObject kvs)" by simp
  from fenceStripped_rejected [OF this] first_object_twice
  show ?thesis by (simp add: extractJson_def attempts_span [OF assms])
qed

lemma extractJson_no_span:
  assumes "\<forall>x y z. raw \<noteq> x @ ch CHR ''{'' # y @ ch CHR ''}'' # z"
  shows "extractJson raw = None"
proof (rule ccontr)
  assume "extractJson raw \<noteq> None"
  then obtain obj where "first_object [fenceStripped raw] = Some obj"
    by (auto simp: extractJson_def attempts_no_span [OF assms])
  from first_object_accepts [OF this] obtain kvs where
    "JSON_parse (fenceStripped raw) = Some (JObject kvs)" by auto
  from fenceStripped_object [OF this] obtain m where
    f: "fenceStripped raw = ch CHR ''{'' # m @ [ch CHR ''}'']" ..
  from fenceStripped_split [of raw] obtain a b where "raw = a @ fenceStripped raw @ b" by blast
  with f have "raw = a @ ch CHR ''{'' # m @ ch CHR ''}'' # b" by simp
  with assms show False by blast
qed

section \<open>The claims about \<open>extractJson\<close>\<close>

text \<open>A text has a brace pair when an opening brace stands somewhere before a closing brace.\<close>

fun has_brace_pair :: "jsstring \<Rightarrow> bool" where
  "has_brace_pair [] = False"
| "has_brace_pair (c # cs) = ((c = ch CHR ''{'' \<and> ch CHR ''}'' \<in> set cs) \<or> has_brace_pair cs)"

text \<open>
  The places where a text holds a well-formed JSON object: the pairs of an offset and a
  length such that the substring there begins with an opening brace, ends with a closing
  brace and parses to an object.
\<close>

definition is_object_text :: "jsstring \<Rightarrow> bool" where
  "is_object_text s =
     (s \<noteq> [] \<and> hd s = ch CHR ''{'' \<and> last s = ch CHR ''}''
      \<and> (case JSON_parse s of Some (JObject kvs) \<Rightarrow> True | _ \<Rightarrow> False))"

definition object_occurrences :: "jsstring \<Rightarrow> (nat \<times> nat) list" where
  "object_occurrences T =
     concat (map (\<lambda>i. map (\<lambda>n. (i, n))
                         (filter (\<lambda>n. is_object_text (take n (drop i T))) [1..<Suc (length T - i)]))
                 [0..<length T])"

lemma has_brace_pair_iff:
  "has_brace_pair raw \<longleftrightarrow> (\<exists>x y z. raw = x @ ch CHR ''{'' # y @ ch CHR ''}'' # z)"
proof (induction raw)
  case Nil
  show ?case by simp
next
  case (Cons c cs)
  show ?case
  proof
    assume "has_brace_pair (c # cs)"
    then consider (here) "c = ch CHR ''{''" "ch CHR ''}'' \<in> set cs" | (later) "has_brace_pair cs"
      by auto
    then show "\<exists>x y z. c # cs = x @ ch CHR ''{'' # y @ ch CHR ''}'' # z"
    proof cases
      case here
      then obtain y z where "cs = y @ ch CHR ''}'' # z" by (meson split_list)
      with here have "c # cs = [] @ ch CHR ''{'' # y @ ch CHR ''}'' # z" by simp
      then show ?thesis by blast
    next
      case later
      with Cons obtain x y z where "cs = x @ ch CHR ''{'' # y @ ch CHR ''}'' # z" by blast
      then have "c # cs = (c # x) @ ch CHR ''{'' # y @ ch CHR ''}'' # z" by simp
      then show ?thesis by blast
    qed
  next
    assume "\<exists>x y z. c # cs = x @ ch CHR ''{'' # y @ ch CHR ''}'' # z"
    then obtain x y z where e: "c # cs = x @ ch CHR ''{'' # y @ ch CHR ''}'' # z" by blast
    show "has_brace_pair (c # cs)"
    proof (cases x)
      case Nil
      with e show ?thesis by simp
    next
      case (Cons x1 xs)
      with e have "cs = xs @ ch CHR ''{'' # y @ ch CHR ''}'' # z" by simp
      with Cons.IH show ?thesis by auto
    qed
  qed
qed

definition example_world :: world where
  "example_world =
     \<lparr> ANTHROPIC_API_KEY = Some (str ''sk-test''),
       SERPAPI_KEY = None,
       BLOB_READ_WRITE_TOKEN = None,
       messages_create = (\<lambda>key mediaType img. Inr [TextBlock (str ''I cannot identify this item.'')]),
       randomUUID = str ''0000'',
       put = (\<lambda>name data contentType. Inl (str ''no storage'')),
       fetch_lens = (\<lambda>url key. Inl (str ''no search'')),
       del = (\<lambda>url. None) \<rparr>"

text \<open>
  C8. A text with no opening brace before a closing brace: \<open>extractJson\<close> returns
  \<open>null\<close>, and \<open>fetchClaudeAnalysis\<close> rejects with an error whose message is the
  fixed prefix followed by the text itself.
\<close>

theorem extractJson_without_braces_fails:
  assumes "\<not> has_brace_pair T"
    and "messages_create w client mediaType img = Inr content"
    and "rawText_of content = T"
  shows "extractJson T = None
     \<and> fst (fetchClaudeAnalysis w client img mediaType)
         = Rejected (ErrorObj (str ''Could not extract JSON from Claude response: '' @ T))"
proof -
  from assms(1) have "\<forall>x y z. T \<noteq> x @ ch CHR ''{'' # y @ ch CHR ''}'' # z"
    by (simp add: has_brace_pair_iff)
  then have n: "extractJson T = None" by (rule extractJson_no_span)
  with assms(2) assms(3) show ?thesis by (simp add: fetchClaudeAnalysis_def Let_def)
qed

theorem extractJson_without_braces_fails_witness:
  "extractJson (str ''I cannot identify this item.'') = None
   \<and> fst (fetchClaudeAnalysis example_world (str ''sk-test'') (str ''aGVsbG8='') (str ''image/png''))
       = Rejected (ErrorObj (str ''Could not extract JSON from Claude response: ''
                             @ str ''I cannot identify this item.''))"
proof -
  have 1: "\<not> has_brace_pair (str ''I cannot identify this item.'')"
    by (simp add: str_def ch_def)
  have 2: "messages_create example_world (str ''sk-test'') (str ''image/png'') (str ''aGVsbG8='')
             = Inr [TextBlock (str ''I cannot identify this item.'')]"
    by (simp add: example_world_def)
  have 3: "rawText_of [TextBlock (str ''I cannot identify this item.'')] = str ''I cannot identify this item.''"
    by (simp add: rawText_of_def)
  from extractJson_without_braces_fails [OF 1 2 3] show ?thesis .
qed

text \<open>
  C7. \<open>extractJson\<close> returns \<open>null\<close> or an object and nothing else; a candidate that is
  valid JSON for an array, a primitive or \<open>null\<close> is passed over, the loop going on with
  the remaining candidates; and a returned value is the parse of one of the candidates.
\<close>

theorem extractJson_accepts_only_objects:
  "(extractJson raw = None \<or> (\<exists>kvs. extractJson raw = Some (JObject kvs)))
   \<and> (JSON_parse c = Some v \<longrightarrow> (\<forall>kvs. v \<noteq> JObject kvs)
        \<longrightarrow> first_object (c # cs) = first_object cs)
   \<and> (extractJson raw = Some obj \<longrightarrow> (\<exists>a\<in>set (attempts raw). JSON_parse a = Some obj))"
proof (intro conjI impI)
  show "extractJson raw = None \<or> (\<exists>kvs. extractJson raw = Some (JObject kvs))"
  proof (cases "extractJson raw")
    case None
    then show ?thesis by simp
  next
    case (Some obj)
    then have "first_object (attempts raw) = Some obj" by (simp add: extractJson_def)
    from first_object_accepts [OF this] Some show ?thesis by auto
  qed
next
  assume "JSON_parse c = Some v" "\<forall>kvs. v \<noteq> JObject kvs"
  with accepted_iff [of v] show "first_object (c # cs) = first_object cs" by auto
next
  assume "extractJson raw = Some obj"
  then have "first_object (attempts raw) = Some obj" by (simp add: extractJson_def)
  from first_object_accepts [OF this] show "\<exists>a\<in>set (attempts raw). JSON_parse a = Some obj" by auto
qed

theorem extractJson_accepts_only_objects_witness:
  \<open>JSON_parse (str ''[1, 2]'') = Some (JArray [JNumber (str ''1''), JNumber (str ''2'')])
   \<and> first_object [str ''[1, 2]'', str ''{"a":"b"}''] = first_object [str ''{"a":"b"}'']
   \<and> extractJson (str ''[1, 2]'') = None
   \<and> extractJson (str ''{"a":"b"}'') = Some (JObject [(str ''a'', JString (str ''b''))])
   \<and> (\<exists>a\<in>set (attempts (str ''{"a":"b"}'')).
         JSON_parse a = Some (JObject [(str ''a'', JString (str ''b''))]))\<close>
proof -
  have 1: "JSON_parse (str ''[1, 2]'') = Some (JArray [JNumber (str ''1''), JNumber (str ''2'')])"
    by code_simp
  have 2: "\<forall>kvs. JArray [JNumber (str ''1''), JNumber (str ''2'')] \<noteq> JObject kvs" by simp
  have 3: \<open>extractJson (str ''{"a":"b"}'') = Some (JObject [(str ''a'', JString (str ''b''))])\<close>
    by code_simp
  have 4: "extractJson (str ''[1, 2]'') = None" by code_simp
  from extractJson_accepts_only_objects
    [of "str ''[1, 2]''" "str ''[1, 2]''" "JArray [JNumber (str ''1''), JNumber (str ''2'')]"
        \<open>[str ''{"a":"b"}'']\<close>]
    1 2
  have 5: \<open>first_object [str ''[1, 2]'', str ''{"a":"b"}''] = first_object [str ''{"a":"b"}'']\<close>
    by blast
  from extractJson_accepts_only_objects [of \<open>str ''{"a":"b"}''\<close> c v cs \<open>JObject [(str ''a'', JString (str ''b''))]\<close>] 3
  have 6: \<open>\<exists>a\<in>set (attempts (str ''{"a":"b"}'')).
         JSON_parse a = Some (JObject [(str ''a'', JString (str ''b''))])\<close>
    by blast
  from 1 4 3 5 6 show ?thesis by blast
qed

text \<open>
  C1. As stated the claim fails: the text below holds exactly one well-formed JSON
  object, at offset 10, and \<open>extractJson\<close> returns \<open>null\<close>, because the text from the
  first opening brace to the last closing brace takes in the braces of the prose.
\<close>

theorem extractJson_prose_braces_counterexample:
  \<open>object_occurrences (str ''Item {1}: {"a":"b"}'') = [(10, 9)]
   \<and> take 9 (drop 10 (str ''Item {1}: {"a":"b"}'')) = str ''{"a":"b"}''
   \<and> JSON_parse (str ''{"a":"b"}'') = Some (JObject [(str ''a'', JString (str ''b''))])
   \<and> extractJson (str ''Item {1}: {"a":"b"}'') = None\<close>
proof -
  have \<open>object_occurrences (str ''Item {1}: {"a":"b"}'') = [(10, 9)]\<close> by code_simp
  moreover have \<open>take 9 (drop 10 (str ''Item {1}: {"a":"b"}'')) = str ''{"a":"b"}''\<close> by code_simp
  moreover have \<open>JSON_parse (str ''{"a":"b"}'') = Some (JObject [(str ''a'', JString (str ''b''))])\<close>
    by code_simp
  moreover have \<open>extractJson (str ''Item {1}: {"a":"b"}'') = None\<close> by code_simp
  ultimately show ?thesis by blast
qed

text \<open>
  C1, amended. A well-formed JSON object, from its opening brace to its closing brace,
  with no opening brace in the text before it and no closing brace in the text after
  it: \<open>extractJson\<close> returns that object. Code fences, prose and white space around the
  object are such texts as long as they hold no brace on the wrong side.
\<close>

theorem extractJson_embedded_object:
  assumes "JSON_parse (ch CHR ''{'' # m @ [ch CHR ''}'']) = Some (JObject kvs)"
    and "ch CHR ''{'' \<notin> set before"
    and "ch CHR ''}'' \<notin> set after"
  shows "extractJson (before @ (ch CHR ''{'' # m @ [ch CHR ''}'']) @ after) = Some (JObject kvs)"
proof -
  have "before @ (ch CHR ''{'' # m @ [ch CHR ''}'']) @ after
          = before @ ch CHR ''{'' # m @ ch CHR ''}'' # after" by simp
  from extractJson_span [OF this assms(2) assms(3)] assms(1)
  show ?thesis by (simp add: first_object_single)
qed

theorem extractJson_embedded_object_witness:
  \<open>extractJson (str ''Sure! Here is the appraisal: '' @ (ch CHR ''{'' # str ''"a":"b"'' @ [ch CHR ''}''])
                 @ str '' Hope that helps.'')
     = Some (JObject [(str ''a'', JString (str ''b''))])\<close>
proof -
  have 1: \<open>JSON_parse (ch CHR ''{'' # str ''"a":"b"'' @ [ch CHR ''}''])
             = Some (JObject [(str ''a'', JString (str ''b''))])\<close> by code_simp
  have 2: "ch CHR ''{'' \<notin> set (str ''Sure! Here is the appraisal: '')" by (simp add: str_def ch_def)
  have 3: "ch CHR ''}'' \<notin> set (str '' Hope that helps.'')" by (simp add: str_def ch_def)
  from extractJson_embedded_object [OF 1 2 3] show ?thesis .
qed

end
